theory Spec2Isabelle
  imports Complex_Main "HOL-Library.Word"
begin

unbundle bit_operations_syntax

section \<open>The round-trip verdict of \<open>run_test\<close>\<close>

text \<open>
  The flags of \<open>wvtest.c\<close> that the verdict reads. C \<open>int\<close> and \<open>uint32_t\<close> values are
  32-bit words; \<open>+\<close> on them wraps.
\<close>

definition TEST_FLAG_IGNORE_WVC :: "32 word" where
  "TEST_FLAG_IGNORE_WVC = 0x4000"

definition TEST_FLAG_NO_DECODE :: "32 word" where
  "TEST_FLAG_NO_DECODE = 0x8000"

text \<open>
  \<open>CONFIG_HYBRID_FLAG\<close> and \<open>CONFIG_CREATE_WVC\<close> come from the library header
  \<open>wavpack-stream.h\<close>, which is not part of the sources at hand: they are parameters.
\<close>

record lib_config =
  CONFIG_HYBRID_FLAG :: "32 word"
  CONFIG_CREATE_WVC :: "32 word"

text \<open>
  The fields of \<open>WavpackDecoder\<close> that the decoding thread leaves behind for the verdict
  (its two stream pointers play no part in it).
\<close>

record WavpackDecoder =
  md5_decoded :: "8 word list"
  sample_count :: "32 word"
  num_errors :: "32 word"

text \<open>\<open>int lossless = !(flags & HYBRID) || ((flags & CREATE_WVC) && !(test_flags & IGNORE_WVC))\<close>\<close>

definition lossless :: "lib_config \<Rightarrow> 32 word \<Rightarrow> 32 word \<Rightarrow> bool" where
  "lossless cfg wpconfig_flags test_flags \<longleftrightarrow>
     wpconfig_flags AND CONFIG_HYBRID_FLAG cfg = 0 \<or>
     (wpconfig_flags AND CONFIG_CREATE_WVC cfg \<noteq> 0 \<and> test_flags AND TEST_FLAG_IGNORE_WVC = 0)"

text \<open>\<open>memcmp (a, b, n)\<close> is nonzero exactly when the first \<open>n\<close> bytes differ.\<close>

definition memcmp_differs :: "nat \<Rightarrow> 8 word list \<Rightarrow> 8 word list \<Rightarrow> bool" where
  "memcmp_differs n a b \<longleftrightarrow> take n a \<noteq> take n b"

text \<open>The condition of the \<open>if\<close> that guards the diagnostic block of \<open>run_test\<close>.\<close>

definition verify_mismatch ::
  "lib_config \<Rightarrow> 32 word \<Rightarrow> 32 word \<Rightarrow> 32 word \<Rightarrow> 8 word list \<Rightarrow> WavpackDecoder \<Rightarrow> bool" where
  "verify_mismatch cfg wpconfig_flags test_flags total_encoded_samples md5_encoded wv_decoder \<longleftrightarrow>
     num_errors wv_decoder \<noteq> 0 \<or>
     sample_count wv_decoder \<noteq> total_encoded_samples \<or>
     (lossless cfg wpconfig_flags test_flags \<and>
      memcmp_differs 16 md5_encoded (md5_decoded wv_decoder))"

text \<open>
  The last statements of \<open>run_test\<close>, after both streams are released: the value returned.
  \<open>return fuzz_period ? 0 : wv_decoder.num_errors + 1\<close> inside the diagnostic block,
  \<open>return 0\<close> after the "pass" line.
\<close>

definition run_test_verify ::
  "lib_config \<Rightarrow> 32 word \<Rightarrow> 32 word \<Rightarrow> 32 word \<Rightarrow> 32 word \<Rightarrow> 8 word list \<Rightarrow> WavpackDecoder
     \<Rightarrow> 32 word" where
  "run_test_verify cfg wpconfig_flags test_flags fuzz_period total_encoded_samples md5_encoded
       wv_decoder =
     (if test_flags AND TEST_FLAG_NO_DECODE = 0 \<and>
         verify_mismatch cfg wpconfig_flags test_flags total_encoded_samples md5_encoded wv_decoder
      then (if fuzz_period \<noteq> 0 then 0 else num_errors wv_decoder + 1)
      else 0)"

section \<open>The pseudorandom source\<close>

text \<open>
  The generator's state is the global \<open>random_seed\<close>, a 64-bit word, passed in and out
  explicitly. One draw mixes the seed three times with
  \<open>random_seed = ((random_seed << 4) - random_seed) ^ 1\<close> and returns
  \<open>(random_seed >> 32) / 4294967296.0\<close>: a 32-bit integer over \<open>2^32\<close>, which a double holds
  exactly, so the value drawn is the real number written here.
\<close>

type_synonym byte = "8 word"

definition frandom_mix :: "64 word \<Rightarrow> 64 word" where
  "frandom_mix random_seed = (push_bit 4 random_seed - random_seed) XOR 1"

definition frandom :: "64 word \<Rightarrow> real \<times> 64 word" where
  "frandom random_seed =
     (let random_seed = frandom_mix random_seed;
          random_seed = frandom_mix random_seed;
          random_seed = frandom_mix random_seed
      in (real (unat (drop_bit 32 random_seed)) / 4294967296, random_seed))"

definition frandom_get_seed :: "64 word \<Rightarrow> 64 word" where
  "frandom_get_seed random_seed = random_seed"

definition frandom_set_seed :: "64 word \<Rightarrow> 64 word \<Rightarrow> 64 word" where
  "frandom_set_seed seed random_seed = seed"

text \<open>
  \<open>n\<close> successive calls of \<open>frandom ()\<close>, as a test draws them: the values returned, in
  order.
\<close>

primrec frandom_draws :: "nat \<Rightarrow> 64 word \<Rightarrow> real list" where
  "frandom_draws 0 random_seed = []"
| "frandom_draws (Suc n) random_seed =
     (case frandom random_seed of (r, random_seed) \<Rightarrow> r # frandom_draws n random_seed)"

section \<open>The fault injector\<close>

text \<open>
  The double arithmetic of \<open>hit_probability\<close> and of the accumulation in \<open>fuzz_buffer\<close> is
  idealised as arithmetic over the reals; the buffer length, the period and the loop
  counters are C \<open>int\<close>s in ranges where they do not overflow, modelled as integers.
  \<open>c_div\<close> is the division of C, which truncates towards zero.
\<close>

definition c_div :: "int \<Rightarrow> int \<Rightarrow> int" where
  "c_div a b = sgn a * sgn b * (\<bar>a\<bar> div \<bar>b\<bar>)"

text \<open>
  The \<open>for\<close> loop of \<open>hit_probability\<close>:
  \<open>probability *= (double)(length - hits) / (period * (hits + 1))\<close> for
  \<open>hits = 0, ..., num_hits - 1\<close>.
\<close>

function hit_probability_loop :: "int \<Rightarrow> int \<Rightarrow> int \<Rightarrow> int \<Rightarrow> real \<Rightarrow> real" where
  "hit_probability_loop period len num_hits hits probability =
     (if hits < num_hits
      then hit_probability_loop period len num_hits (hits + 1)
             (probability * (real_of_int (len - hits) / real_of_int (period * (hits + 1))))
      else probability)"
  by pat_completeness auto
termination
  by (relation "measure (\<lambda>(period, len, num_hits, hits, probability). nat (num_hits - hits))") auto

declare hit_probability_loop.simps [simp del]

text \<open>
  \<open>pow ((period - 1.0) / period, length - num_hits)\<close> is a power with an integer exponent;
  the exponent is not negative wherever \<open>fuzz_buffer\<close> asks (fewer hits than bytes).
\<close>

definition hit_probability :: "int \<Rightarrow> int \<Rightarrow> int \<Rightarrow> real" where
  "hit_probability period len num_hits =
     hit_probability_loop period len num_hits 0
       (((real_of_int period - 1) / real_of_int period) powi (len - num_hits))"

text \<open>
  The first loop of \<open>fuzz_buffer\<close>, which fixes the number of hits. \<open>num_hits\<close> starts at 0
  and only grows, so it is a natural number here. The loop leaves through one of its two
  \<open>break\<close>s; a run that never does has the value \<open>None\<close>.
\<close>

partial_function (option) count_hits :: "int \<Rightarrow> int \<Rightarrow> real \<Rightarrow> real \<Rightarrow> nat \<Rightarrow> nat option" where
  "count_hits fuzz_period len fuzz_factor probability_accum num_hits =
     (let probability_accum = probability_accum + hit_probability fuzz_period len (int num_hits)
      in if probability_accum < fuzz_factor
         then (let num_hits = num_hits + 1
               in if int num_hits = c_div (len + 1) 2 then Some num_hits
                  else count_hits fuzz_period len fuzz_factor probability_accum num_hits)
         else Some num_hits)"

text \<open>
  What the termination of the bit-toggle loop rests on: a draw lies in \<open>[0, 1)\<close>, so
  \<open>floor (frandom () * 8)\<close> is a bit number from 0 to 7 and \<open>1 << bit\<close> is a nonzero byte.
\<close>

lemma frandom_range: "0 \<le> fst (frandom s) \<and> fst (frandom s) < 1"
proof -
  define n where "n = unat (drop_bit 32 (frandom_mix (frandom_mix (frandom_mix s))))"
  have "n = unat (frandom_mix (frandom_mix (frandom_mix s))) div 2 ^ 32"
    by (simp add: n_def drop_bit_eq_div unat_div)
  moreover have "unat (frandom_mix (frandom_mix (frandom_mix s))) < 2 ^ 64"
    using unsigned_less [of "frandom_mix (frandom_mix (frandom_mix s))"] by simp
  ultimately have "n < 4294967296" by simp
  then have "0 \<le> real n / 4294967296 \<and> real n / 4294967296 < 1" by simp
  moreover have "fst (frandom s) = real n / 4294967296"
    by (simp add: frandom_def Let_def n_def)
  ultimately show ?thesis by (simp only:)
qed

lemma frandom_bit_index:
  "0 \<le> \<lfloor>fst (frandom s) * 8\<rfloor> \<and> \<lfloor>fst (frandom s) * 8\<rfloor> < 8"
  using frandom_range [of s] by (simp add: floor_less_iff)

lemma toggle_mask_nonzero:
  "k < 8 \<Longrightarrow> (ucast (push_bit k (1 :: 32 word)) :: 8 word) \<noteq> 0"
proof -
  assume "k < 8"
  then have "k \<in> {0, 1, 2, 3, 4, 5, 6, 7}" by auto
  then show ?thesis by auto
qed

lemma xor_mask_changes: "m \<noteq> 0 \<Longrightarrow> (b :: 8 word) XOR m \<noteq> b"
proof
  assume m: "m \<noteq> 0" and eq: "b XOR m = b"
  have "m = b XOR (b XOR m)"
    by (simp add: xor.assoc [symmetric])
  with eq have "m = 0" by simp
  with m show False by simp
qed

lemma toggle_changes:
  assumes "(r, s') = frandom s"
  shows "b XOR ucast (push_bit (nat \<lfloor>r * 8\<rfloor>) (1 :: 32 word)) \<noteq> (b :: 8 word)"
proof -
  from assms have r: "r = fst (frandom s)" by (metis fst_conv)
  have "nat \<lfloor>r * 8\<rfloor> < 8"
    using frandom_bit_index [of s] unfolding r by linarith
  then show ?thesis
    by (intro xor_mask_changes toggle_mask_nonzero)
qed

text \<open>
  The inner loop of a hit,
  \<open>while (delta_bits-- > 0 || data_ptr [index] == initial_value)
     data_ptr [index] ^= 1 << (int)(floor (frandom () * 8));\<close>
  It reads and writes the one byte \<open>data_ptr [index]\<close>: the model runs it on that byte
  (\<open>b\<close>) and \<open>fuzz_hit\<close> stores the result.
\<close>

function toggle_bits :: "int \<Rightarrow> byte \<Rightarrow> byte \<Rightarrow> 64 word \<Rightarrow> byte \<times> 64 word" where
  "toggle_bits delta_bits initial_value b random_seed =
     (if delta_bits > 0 \<or> b = initial_value
      then (case frandom random_seed of (r, random_seed) \<Rightarrow>
              toggle_bits (delta_bits - 1) initial_value
                (b XOR ucast (push_bit (nat \<lfloor>r * 8\<rfloor>) (1 :: 32 word))) random_seed)
      else (b, random_seed))"
  by pat_completeness auto
termination
proof (relation "measure (\<lambda>(delta_bits, initial_value, b, random_seed).
          2 * nat delta_bits + (if b = initial_value then 1 else 0))")
  show "wf (measure (\<lambda>(delta_bits, initial_value, b, random_seed).
          2 * nat delta_bits + (if b = initial_value then 1 else (0::nat))))"
    by simp
next
  fix delta_bits :: int and initial_value b :: byte and random_seed :: "64 word" and x y
  assume "0 < delta_bits \<or> b = initial_value" and "(x, y) = frandom random_seed"
  then show "((delta_bits - 1, initial_value,
                b XOR ucast (push_bit (nat \<lfloor>x * 8\<rfloor>) (1 :: 32 word)), y),
               delta_bits, initial_value, b, random_seed)
             \<in> measure (\<lambda>(delta_bits, initial_value, b, random_seed).
                   2 * nat delta_bits + (if b = initial_value then 1 else 0))"
    using toggle_changes [of x y random_seed initial_value] by auto
qed

declare toggle_bits.simps [simp del]


text \<open>
  An access outside the buffer is undefined in C; the model stops with \<open>OutOfBounds\<close>.
\<close>

datatype fault = OutOfBounds

text \<open>
  \<open>frandom () * length\<close> is the one product of the hit loop that a double may round
  (a 32-bit fraction times a 31-bit length). The rounding is the parameter \<open>rnd\<close>;
  all that is asked of it is that it keeps a value of \<open>[0, length]\<close> inside \<open>[0, length]\<close>, as
  rounding to nearest does, both ends being doubles.
\<close>

definition rounds_within :: "(real \<Rightarrow> real) \<Rightarrow> int \<Rightarrow> bool" where
  "rounds_within rnd len \<longleftrightarrow>
     (\<forall>x. 0 \<le> x \<and> x \<le> real_of_int len \<longrightarrow> 0 \<le> rnd x \<and> rnd x \<le> real_of_int len)"

text \<open>
  \<open>int index = floor (frandom () * length); ... if (index == length) index--;\<close>
\<close>

definition fuzz_index :: "(real \<Rightarrow> real) \<Rightarrow> real \<Rightarrow> int \<Rightarrow> int" where
  "fuzz_index rnd r len =
     (let index = \<lfloor>rnd (r * real_of_int len)\<rfloor>
      in if index = len then index - 1 else index)"

text \<open>
  The body of \<open>while (num_hits--)\<close>: two draws (the index, then \<open>delta_bits =
  ceil (frandom () * 8)\<close>), the clamp of the index, the bit-toggle loop on the chosen byte.
\<close>

definition fuzz_hit ::
  "(real \<Rightarrow> real) \<Rightarrow> byte list \<Rightarrow> int \<Rightarrow> 64 word \<Rightarrow> fault + byte list \<times> 64 word" where
  "fuzz_hit rnd data len random_seed =
     (case frandom random_seed of (r1, random_seed) \<Rightarrow>
      case frandom random_seed of (r2, random_seed) \<Rightarrow>
        (let index = fuzz_index rnd r1 len;
             delta_bits = \<lceil>r2 * 8\<rceil>
         in if 0 \<le> index \<and> index < int (length data)
            then (case toggle_bits delta_bits (data ! nat index) (data ! nat index) random_seed of
                    (b, random_seed) \<Rightarrow> Inr (data[nat index := b], random_seed))
            else Inl OutOfBounds))"

primrec fuzz_hits ::
  "(real \<Rightarrow> real) \<Rightarrow> nat \<Rightarrow> byte list \<Rightarrow> int \<Rightarrow> 64 word \<Rightarrow> fault + byte list \<times> 64 word" where
  "fuzz_hits rnd 0 data len random_seed = Inr (data, random_seed)"
| "fuzz_hits rnd (Suc num_hits) data len random_seed =
     (case fuzz_hit rnd data len random_seed of
        Inl e \<Rightarrow> Inl e
      | Inr (data, random_seed) \<Rightarrow> fuzz_hits rnd num_hits data len random_seed)"

text \<open>
  \<open>fuzz_buffer (data, length, fuzz_period)\<close>: the seed is saved, one draw gives
  \<open>fuzz_factor\<close>, the first loop fixes \<open>num_hits\<close>, the second corrupts that many bytes,
  and the saved seed is put back. The result holds the buffer and the seed afterwards.
\<close>

definition fuzz_buffer ::
  "(real \<Rightarrow> real) \<Rightarrow> byte list \<Rightarrow> int \<Rightarrow> int \<Rightarrow> 64 word \<Rightarrow> (fault + byte list \<times> 64 word) option" where
  "fuzz_buffer rnd data len fuzz_period random_seed =
     (let saved_seed = frandom_get_seed random_seed
      in case frandom random_seed of (fuzz_factor, random_seed) \<Rightarrow>
         (case count_hits fuzz_period len fuzz_factor 0 0 of
            None \<Rightarrow> None
          | Some num_hits \<Rightarrow>
              (case fuzz_hits rnd num_hits data len random_seed of
                 Inl e \<Rightarrow> Some (Inl e)
               | Inr (data, random_seed) \<Rightarrow>
                   Some (Inr (data, frandom_set_seed saved_seed random_seed)))))"




section \<open>Storing samples\<close>

text \<open>
  The \<open>QMODE_\<close> flags come from the library header \<open>wavpack-stream.h\<close>, which is not part of
  the sources at hand: they are parameters of \<open>store_samples\<close>. \<open>wavpack_qmode\<close> holds the values
  the WavPack headers give them (\<open>QMODE_DSD_AUDIO\<close> is the two DSD bits \<open>0x10 | 0x20\<close>).
\<close>

record qmode_flags =
  QMODE_BIG_ENDIAN :: "32 word"
  QMODE_SIGNED_BYTES :: "32 word"
  QMODE_UNSIGNED_WORDS :: "32 word"
  QMODE_DSD_AUDIO :: "32 word"

definition wavpack_qmode :: qmode_flags where
  "wavpack_qmode = \<lparr>QMODE_BIG_ENDIAN = 0x1, QMODE_SIGNED_BYTES = 0x2,
                     QMODE_UNSIGNED_WORDS = 0x4, QMODE_DSD_AUDIO = 0x30\<rparr>"

text \<open>
  The four writers. A sample is an \<open>int32_t\<close>; \<open>temp >> n\<close> is the arithmetic shift of a
  signed value, and the cast to \<open>unsigned char\<close> keeps the low byte. Each returns the bytes it
  has written from \<open>dst\<close> on (the pointer it returns is \<open>dst\<close> plus their number); \<open>src\<close> holds
  at least \<open>count\<close> samples. A \<open>bps\<close> outside 1 to 4 matches no \<open>case\<close>: nothing is written.
\<close>

definition store_little_endian_unsigned_samples :: "32 word list \<Rightarrow> int \<Rightarrow> nat \<Rightarrow> byte list" where
  "store_little_endian_unsigned_samples src bps count =
     (if bps = 1 then concat (map (\<lambda>s. [ucast (s + 0x80)]) (take count src))
      else if bps = 2 then
        concat (map (\<lambda>s. let temp = s + 0x8000
                        in [ucast temp, ucast (signed_drop_bit 8 temp)]) (take count src))
      else if bps = 3 then
        concat (map (\<lambda>s. let temp = s + 0x800000
                        in [ucast temp, ucast (signed_drop_bit 8 temp),
                            ucast (signed_drop_bit 16 temp)]) (take count src))
      else if bps = 4 then
        concat (map (\<lambda>s. let temp = s + 0x80000000
                        in [ucast temp, ucast (signed_drop_bit 8 temp),
                            ucast (signed_drop_bit 16 temp),
                            ucast (signed_drop_bit 24 temp)]) (take count src))
      else [])"

definition store_little_endian_signed_samples :: "32 word list \<Rightarrow> int \<Rightarrow> nat \<Rightarrow> byte list" where
  "store_little_endian_signed_samples src bps count =
     (if bps = 1 then concat (map (\<lambda>s. [ucast s]) (take count src))
      else if bps = 2 then
        concat (map (\<lambda>s. let temp = s
                        in [ucast temp, ucast (signed_drop_bit 8 temp)]) (take count src))
      else if bps = 3 then
        concat (map (\<lambda>s. let temp = s
                        in [ucast temp, ucast (signed_drop_bit 8 temp),
                            ucast (signed_drop_bit 16 temp)]) (take count src))
      else if bps = 4 then
        concat (map (\<lambda>s. let temp = s
                        in [ucast temp, ucast (signed_drop_bit 8 temp),
                            ucast (signed_drop_bit 16 temp),
                            ucast (signed_drop_bit 24 temp)]) (take count src))
      else [])"

definition store_big_endian_unsigned_samples :: "32 word list \<Rightarrow> int \<Rightarrow> nat \<Rightarrow> byte list" where
  "store_big_endian_unsigned_samples src bps count =
     (if bps = 1 then concat (map (\<lambda>s. [ucast (s + 0x80)]) (take count src))
      else if bps = 2 then
        concat (map (\<lambda>s. let temp = s + 0x8000
                        in [ucast (signed_drop_bit 8 temp), ucast temp]) (take count src))
      else if bps = 3 then
        concat (map (\<lambda>s. let temp = s + 0x800000
                        in [ucast (signed_drop_bit 16 temp), ucast (signed_drop_bit 8 temp),
                            ucast temp]) (take count src))
      else if bps = 4 then
        concat (map (\<lambda>s. let temp = s + 0x80000000
                        in [ucast (signed_drop_bit 24 temp), ucast (signed_drop_bit 16 temp),
                            ucast (signed_drop_bit 8 temp), ucast temp]) (take count src))
      else [])"

definition store_big_endian_signed_samples :: "32 word list \<Rightarrow> int \<Rightarrow> nat \<Rightarrow> byte list" where
  "store_big_endian_signed_samples src bps count =
     (if bps = 1 then concat (map (\<lambda>s. [ucast s]) (take count src))
      else if bps = 2 then
        concat (map (\<lambda>s. let temp = s
                        in [ucast (signed_drop_bit 8 temp), ucast temp]) (take count src))
      else if bps = 3 then
        concat (map (\<lambda>s. let temp = s
                        in [ucast (signed_drop_bit 16 temp), ucast (signed_drop_bit 8 temp),
                            ucast temp]) (take count src))
      else if bps = 4 then
        concat (map (\<lambda>s. let temp = s
                        in [ucast (signed_drop_bit 24 temp), ucast (signed_drop_bit 16 temp),
                            ucast (signed_drop_bit 8 temp), ucast temp]) (take count src))
      else [])"

definition store_samples ::
  "qmode_flags \<Rightarrow> 32 word list \<Rightarrow> 32 word \<Rightarrow> int \<Rightarrow> nat \<Rightarrow> byte list" where
  "store_samples q src qmode bps count =
     (if qmode AND QMODE_BIG_ENDIAN q \<noteq> 0 then
        (if qmode AND QMODE_UNSIGNED_WORDS q \<noteq> 0 \<or>
            (bps = 1 \<and> qmode AND QMODE_SIGNED_BYTES q = 0)
         then store_big_endian_unsigned_samples src bps count
         else store_big_endian_signed_samples src bps count)
      else if qmode AND QMODE_UNSIGNED_WORDS q \<noteq> 0 \<or>
              (bps = 1 \<and> qmode AND (QMODE_SIGNED_BYTES q OR QMODE_DSD_AUDIO q) = 0)
      then store_little_endian_unsigned_samples src bps count
      else store_little_endian_signed_samples src bps count)"

text \<open>
  The specification's reading, to compare with: the low \<open>n\<close> bytes of a value, least
  significant first; the bias of an unsigned encoding, half of the range of \<open>n\<close> bytes;
  when the unsigned encoding is selected; and the bytes of one sample.
  \<open>unsigned_selected_spec\<close> is the selection as the specification words it,
  \<open>unsigned_selected\<close> the one \<open>store_samples\<close> makes.
\<close>

definition low_bytes :: "nat \<Rightarrow> 32 word \<Rightarrow> byte list" where
  "low_bytes n v = map (\<lambda>i. ucast (drop_bit (8 * i) v)) [0..<n]"

definition half_range :: "nat \<Rightarrow> 32 word" where
  "half_range n = push_bit (8 * n - 1) 1"

definition unsigned_selected_spec :: "qmode_flags \<Rightarrow> 32 word \<Rightarrow> int \<Rightarrow> bool" where
  "unsigned_selected_spec q qmode bps \<longleftrightarrow>
     qmode AND QMODE_UNSIGNED_WORDS q \<noteq> 0 \<or> (bps = 1 \<and> qmode AND QMODE_SIGNED_BYTES q = 0)"

definition unsigned_selected :: "qmode_flags \<Rightarrow> 32 word \<Rightarrow> int \<Rightarrow> bool" where
  "unsigned_selected q qmode bps \<longleftrightarrow>
     qmode AND QMODE_UNSIGNED_WORDS q \<noteq> 0 \<or>
     (bps = 1 \<and> qmode AND QMODE_SIGNED_BYTES q = 0 \<and>
      (qmode AND QMODE_BIG_ENDIAN q \<noteq> 0 \<or> qmode AND QMODE_DSD_AUDIO q = 0))"

definition encode_sample :: "qmode_flags \<Rightarrow> 32 word \<Rightarrow> int \<Rightarrow> 32 word \<Rightarrow> byte list" where
  "encode_sample q qmode bps s =
     (let v = (if unsigned_selected q qmode bps then s + half_range (nat bps) else s);
          bytes = low_bytes (nat bps) v
      in if qmode AND QMODE_BIG_ENDIAN q \<noteq> 0 then rev bytes else bytes)"

section \<open>Quantizing floats to 32-bit integers\<close>

text \<open>
  \<open>float_to_32bit_integer_samples\<close>, one sample at a time. A sample is a \<open>float\<close>, and every
  \<open>float\<close> is a real number; the comparisons with \<open>1.0\<close> and \<open>-1.0\<close> are exact, and so is the
  product with \<open>scalar = 2^31\<close> (a power of two) for a sample strictly between, so the sample is
  modelled as that real number. \<open>isample\<close> is a C \<open>int\<close>: a 32-bit word, shifted right
  arithmetically by \<open>>>=\<close> and left as an \<open>unsigned int\<close>.
\<close>

text \<open>
  \<open>while (!((isample >>= 1) & 1)) tzeros++;\<close> It does not end on 0, which the guard
  \<open>isample && !(isample & 1)\<close> keeps away.
\<close>

partial_function (option) trailing_zeros :: "32 word \<Rightarrow> nat \<Rightarrow> (32 word \<times> nat) option" where
  "trailing_zeros isample tzeros =
     (let isample = signed_drop_bit 1 isample
      in if isample AND 1 \<noteq> 0 then Some (isample, tzeros)
         else trailing_zeros isample (tzeros + 1))"

text \<open>
  \<open>while (tzeros--) isample = ((unsigned int) isample << 1) + ((frandom() > 0.5) ? 1 : 0);\<close>
\<close>

primrec refill_zeros :: "nat \<Rightarrow> 32 word \<Rightarrow> 64 word \<Rightarrow> 32 word \<times> 64 word" where
  "refill_zeros 0 isample random_seed = (isample, random_seed)"
| "refill_zeros (Suc tzeros) isample random_seed =
     (case frandom random_seed of (r, random_seed) \<Rightarrow>
        refill_zeros tzeros (push_bit 1 isample + (if r > 0.5 then 1 else 0)) random_seed)"

text \<open>
  The body of the sample loop, with the constants as the source declares them:
  \<open>int isample, imin = 0x8000000, imax = 0x7fffffff; float scalar = 2147483648.0;\<close>
\<close>

definition float_to_32bit_integer_sample ::
  "real \<Rightarrow> 64 word \<Rightarrow> (32 word \<times> 64 word) option" where
  "float_to_32bit_integer_sample sample random_seed =
     (let imin = 0x8000000; imax = 0x7fffffff; scalar = 2147483648;
          isample = (if sample \<ge> 1.0 then imax
                     else if sample \<le> - 1.0 then imin
                     else word_of_int \<lfloor>sample * scalar\<rfloor>)
      in if isample \<noteq> 0 \<and> isample AND 1 = 0
         then (case trailing_zeros isample 1 of
                 None \<Rightarrow> None
               | Some (isample, tzeros) \<Rightarrow> Some (refill_zeros tzeros isample random_seed))
         else Some (isample, random_seed))"

primrec float_to_32bit_integer_samples ::
  "real list \<Rightarrow> 64 word \<Rightarrow> (32 word list \<times> 64 word) option" where
  "float_to_32bit_integer_samples [] random_seed = Some ([], random_seed)"
| "float_to_32bit_integer_samples (sample # samples) random_seed =
     (case float_to_32bit_integer_sample sample random_seed of
        None \<Rightarrow> None
      | Some (isample, random_seed) \<Rightarrow>
          (case float_to_32bit_integer_samples samples random_seed of
             None \<Rightarrow> None
           | Some (isamples, random_seed) \<Rightarrow> Some (isample # isamples, random_seed)))"

section \<open>The streaming channel\<close>

text \<open>
  \<open>StreamingFile\<close>, field by field. The three pointers into the ring are \<open>buffer_base\<close>, the
  allocated block (\<open>None\<close> is the null pointer), and the offsets of \<open>buffer_head\<close> and
  \<open>buffer_tail\<close> from it. \<open>done\<close> and \<open>file\<close> are keywords of Isabelle: the fields are
  \<open>done_flag\<close> and \<open>file_stream\<close>; the backing file is the bytes written to it so far. The
  mutex and the two condition variables carry no data: holding the mutex makes each run
  of a loop below, up to its \<open>pthread_cond_wait\<close>, one atomic step, and a wait is an outcome
  of the operation.
\<close>

record StreamingFile =
  buffer_size :: nat
  bytes_written :: "32 word"
  bytes_read :: "32 word"
  first_block_size :: "32 word"
  buffer_base :: "byte list option"
  buffer_head :: nat
  buffer_tail :: nat
  push_back :: "32 word"
  done_flag :: "32 word"
  error :: "32 word"
  empty_waits :: "32 word"
  full_waits :: "32 word"
  fuzz_period :: int
  file_stream :: "byte list option"

text \<open>
  \<open>CLEAR (wv_stream)\<close>: every field zero.
\<close>

definition cleared_stream :: StreamingFile where
  "cleared_stream =
     \<lparr>buffer_size = 0, bytes_written = 0, bytes_read = 0, first_block_size = 0,
      buffer_base = None, buffer_head = 0, buffer_tail = 0, push_back = 0, done_flag = 0,
      error = 0, empty_waits = 0, full_waits = 0, fuzz_period = 0, file_stream = None\<rparr>"

text \<open>
  \<open>initialize_stream\<close> touches the structure only for a nonzero size. The bytes \<open>malloc\<close>
  returns are unspecified; they are zeros here, and nothing reads them before they are
  written.
\<close>

definition initialize_stream :: "StreamingFile \<Rightarrow> nat \<Rightarrow> int \<Rightarrow> StreamingFile" where
  "initialize_stream ws bsize fuzz =
     (if bsize \<noteq> 0
      then ws\<lparr>buffer_size := bsize, buffer_base := Some (replicate bsize 0),
              buffer_head := 0, buffer_tail := 0, fuzz_period := fuzz\<rparr>
      else ws)"

text \<open>
  What a call of \<open>write_block\<close> comes to: it returns a status, or it waits on \<open>cond_read\<close>
  holding the bytes not yet copied, or it leaves the ring (\<open>WriteFault\<close>: a copy outside the
  allocated block, which a well-formed ring never asks for).
\<close>

datatype write_outcome =
    WriteReturned "32 word" StreamingFile
  | WriteWaiting StreamingFile "byte list"
  | WriteFault

text \<open>
  The amount one turn of \<open>while (length)\<close> copies: \<open>bytes_to_copy\<close> after its three
  adjustments.
\<close>

definition write_chunk :: "StreamingFile \<Rightarrow> nat \<Rightarrow> int" where
  "write_chunk ws len =
     (let bytes_available = int (buffer_tail ws) - int (buffer_head ws) - 1;
          bytes_to_copy = int len;
          bytes_available = (if bytes_available < 0 then bytes_available + int (buffer_size ws)
                             else bytes_available);
          bytes_to_copy = (if bytes_available < bytes_to_copy then bytes_available
                           else bytes_to_copy);
          bytes_to_copy = (if int (buffer_head ws) + bytes_to_copy > int (buffer_size ws)
                           then int (buffer_size ws) - int (buffer_head ws) else bytes_to_copy)
      in bytes_to_copy)"

text \<open>
  \<open>memcpy (buffer + pos, bytes, n)\<close> on the block.
\<close>

definition memcpy_in :: "byte list \<Rightarrow> nat \<Rightarrow> byte list \<Rightarrow> byte list" where
  "memcpy_in buf pos bytes = take pos buf @ bytes @ drop (pos + length bytes) buf"

text \<open>
  The loop of \<open>write_block\<close> under the mutex, from its test \<open>while (length)\<close> on; a writer
  woken from its wait starts here again (\<open>continue\<close>), with the bytes it still holds.
\<close>

function write_loop :: "StreamingFile \<Rightarrow> byte list \<Rightarrow> write_outcome" where
  "write_loop ws data =
     (if data = [] then WriteReturned 1 ws
      else let bytes_to_copy = write_chunk ws (length data)
           in if bytes_to_copy = 0
              then WriteWaiting (ws\<lparr>full_waits := full_waits ws + 1\<rparr>) data
              else (case buffer_base ws of
                      None \<Rightarrow> WriteFault
                    | Some buf \<Rightarrow>
                        if bytes_to_copy < 0 \<or> buffer_head ws + nat bytes_to_copy > length buf
                        then WriteFault
                        else write_loop
                               (ws\<lparr>buffer_base :=
                                      Some (memcpy_in buf (buffer_head ws) (take (nat bytes_to_copy) data)),
                                    buffer_head :=
                                      (if buffer_head ws + nat bytes_to_copy = buffer_size ws then 0
                                       else buffer_head ws + nat bytes_to_copy)\<rparr>)
                               (drop (nat bytes_to_copy) data)))"
  by pat_completeness auto
termination
  by (relation "measure (\<lambda>(ws, data). length data)") auto

declare write_loop.simps [simp del]

text \<open>
  \<open>write_block (id, data, length)\<close>: \<open>data\<close> holds the \<open>length\<close> bytes of the block, so an empty
  list is \<open>!length\<close>. After the fault injector, \<open>write_block_account\<close> is the bookkeeping done
  before the mutex is taken: the size of the first block, the byte counter, and the copy to
  the backing file, where \<open>fwrite_count\<close> is what \<open>fwrite\<close> reports. \<open>rnd\<close> and \<open>random_seed\<close>
  serve the fault injector. \<open>None\<close>: the call never ends (the injector's first loop).
\<close>

definition write_block_account :: "nat \<Rightarrow> StreamingFile \<Rightarrow> byte list \<Rightarrow> StreamingFile" where
  "write_block_account fwrite_count ws data =
     (let ws = (if first_block_size ws = 0
                then ws\<lparr>first_block_size := of_nat (length data)\<rparr> else ws);
          ws = ws\<lparr>bytes_written := bytes_written ws + of_nat (length data)\<rparr>
      in case file_stream ws of
           None \<Rightarrow> ws
         | Some contents \<Rightarrow>
             if error ws \<noteq> 0 then ws
             else if fwrite_count = 0 then ws\<lparr>error := 1, file_stream := None\<rparr>
             else ws\<lparr>file_stream := Some (contents @ take fwrite_count data)\<rparr>)"

definition write_block ::
  "(real \<Rightarrow> real) \<Rightarrow> nat \<Rightarrow> StreamingFile \<Rightarrow> byte list \<Rightarrow> 64 word \<Rightarrow> (write_outcome \<times> 64 word) option" where
  "write_block rnd fwrite_count ws data random_seed =
     (if data = [] then Some (WriteReturned 0 ws, random_seed)
      else case (if fuzz_period ws \<noteq> 0
                 then fuzz_buffer rnd data (int (length data)) (fuzz_period ws) random_seed
                 else Some (Inr (data, random_seed))) of
             None \<Rightarrow> None
           | Some (Inl e) \<Rightarrow> Some (WriteFault, random_seed)
           | Some (Inr (data, random_seed)) \<Rightarrow>
               (let ws = write_block_account fwrite_count ws data
                in if buffer_size ws = 0 then Some (WriteReturned 1 ws, random_seed)
                   else Some (write_loop ws data, random_seed)))"

text \<open>
  What a call of \<open>read_bytes\<close> comes to: it returns the bytes copied to the caller, or it
  waits on \<open>cond_write\<close> with \<open>bcount\<close> bytes still wanted and the bytes copied so far, or it
  leaves the ring (\<open>ReadFault\<close>, which stands also for a turn that copies nothing and would
  spin: neither happens on a well-formed ring).
\<close>

datatype read_outcome =
    ReadReturned "byte list" StreamingFile
  | ReadWaiting StreamingFile nat "byte list"
  | ReadFault

definition read_chunk :: "StreamingFile \<Rightarrow> nat \<Rightarrow> int" where
  "read_chunk ws bcount =
     (let bytes_available = int (buffer_head ws) - int (buffer_tail ws);
          bytes_to_copy = int bcount;
          bytes_available = (if bytes_available < 0 then bytes_available + int (buffer_size ws)
                             else bytes_available);
          bytes_to_copy = (if bytes_available < bytes_to_copy then bytes_available
                           else bytes_to_copy);
          bytes_to_copy = (if int (buffer_tail ws) + bytes_to_copy > int (buffer_size ws)
                           then int (buffer_size ws) - int (buffer_tail ws) else bytes_to_copy)
      in bytes_to_copy)"

text \<open>
  The loop of \<open>read_bytes\<close>; \<open>got\<close> is what \<open>data_ptr\<close> has passed over. A reader woken from
  its wait starts at the test \<open>while (bcount)\<close> again.
\<close>

function read_loop :: "StreamingFile \<Rightarrow> nat \<Rightarrow> byte list \<Rightarrow> read_outcome" where
  "read_loop ws bcount got =
     (if bcount = 0 then ReadReturned got ws
      else if push_back ws \<noteq> 0
      then read_loop (ws\<lparr>push_back := 0\<rparr>) (bcount - 1) (got @ [ucast (push_back ws)])
      else if buffer_head ws \<noteq> buffer_tail ws
      then (let bytes_to_copy = read_chunk ws bcount
            in case buffer_base ws of
                 None \<Rightarrow> ReadFault
               | Some buf \<Rightarrow>
                   if bytes_to_copy \<le> 0 \<or> buffer_tail ws + nat bytes_to_copy > length buf
                   then ReadFault
                   else read_loop
                          (ws\<lparr>buffer_tail :=
                                 (if buffer_tail ws + nat bytes_to_copy = buffer_size ws then 0
                                  else buffer_tail ws + nat bytes_to_copy),
                               bytes_read := bytes_read ws + of_nat (nat bytes_to_copy)\<rparr>)
                          (bcount - nat bytes_to_copy)
                          (got @ take (nat bytes_to_copy) (drop (buffer_tail ws) buf)))
      else if done_flag ws \<noteq> 0 then ReadReturned got ws
      else ReadWaiting (ws\<lparr>empty_waits := empty_waits ws + 1\<rparr>) bcount got)"
  by pat_completeness auto
termination
  by (relation "measure (\<lambda>(ws, bcount, got). bcount)") auto

declare read_loop.simps [simp del]

definition read_bytes :: "StreamingFile \<Rightarrow> nat \<Rightarrow> read_outcome" where
  "read_bytes ws bcount = read_loop ws bcount []"

text \<open>
  \<open>push_back_byte\<close> returns \<open>c\<close> when it stores it, \<open>EOF\<close> (-1) when a byte is pending. The
  slot is the \<open>int\<close> \<open>push_back\<close>; zero means that it is empty.
\<close>

definition EOF :: "32 word" where
  "EOF = - 1"

definition push_back_byte :: "StreamingFile \<Rightarrow> 32 word \<Rightarrow> 32 word \<times> StreamingFile" where
  "push_back_byte ws c =
     (if push_back ws = 0 then (c, ws\<lparr>push_back := c\<rparr>) else (EOF, ws))"

definition flush_stream :: "StreamingFile \<Rightarrow> StreamingFile" where
  "flush_stream ws = (if buffer_base ws \<noteq> None then ws\<lparr>done_flag := 1\<rparr> else ws)"

text \<open>
  Reading the ring: it is well formed when the block has \<open>buffer_size\<close> bytes and both
  offsets lie inside it; its contents run from the tail to the head, around the end of the
  block; the reader's view of the channel is the pushed-back byte, if any, then the
  contents.
\<close>

definition ring_ok :: "StreamingFile \<Rightarrow> bool" where
  "ring_ok ws \<longleftrightarrow>
     (case buffer_base ws of
        None \<Rightarrow> False
      | Some buf \<Rightarrow> length buf = buffer_size ws \<and> buffer_head ws < buffer_size ws \<and>
                    buffer_tail ws < buffer_size ws)"

definition ring_contents :: "StreamingFile \<Rightarrow> byte list" where
  "ring_contents ws =
     (case buffer_base ws of
        None \<Rightarrow> []
      | Some buf \<Rightarrow>
          if buffer_tail ws \<le> buffer_head ws
          then take (buffer_head ws - buffer_tail ws) (drop (buffer_tail ws) buf)
          else drop (buffer_tail ws) buf @ take (buffer_head ws) buf)"

definition stream_view :: "StreamingFile \<Rightarrow> byte list" where
  "stream_view ws = (if push_back ws \<noteq> 0 then [ucast (push_back ws)] else []) @ ring_contents ws"

text \<open>
  What the writer and the reader leave alone, and what each loop establishes.
\<close>

definition writer_frame :: "StreamingFile \<Rightarrow> StreamingFile \<Rightarrow> bool" where
  "writer_frame ws ws' \<longleftrightarrow>
     buffer_size ws' = buffer_size ws \<and> buffer_tail ws' = buffer_tail ws \<and>
     push_back ws' = push_back ws \<and> done_flag ws' = done_flag ws \<and>
     fuzz_period ws' = fuzz_period ws \<and> bytes_read ws' = bytes_read ws"

definition reader_frame :: "StreamingFile \<Rightarrow> StreamingFile \<Rightarrow> bool" where
  "reader_frame ws ws' \<longleftrightarrow>
     buffer_size ws' = buffer_size ws \<and> buffer_head ws' = buffer_head ws \<and>
     buffer_base ws' = buffer_base ws \<and> done_flag ws' = done_flag ws \<and>
     fuzz_period ws' = fuzz_period ws \<and> bytes_written ws' = bytes_written ws"

definition write_post :: "StreamingFile \<Rightarrow> byte list \<Rightarrow> write_outcome \<Rightarrow> bool" where
  "write_post ws data out \<longleftrightarrow>
     (case out of
        WriteReturned r ws' \<Rightarrow>
          r = 1 \<and> ring_ok ws' \<and> writer_frame ws ws' \<and> ring_contents ws' = ring_contents ws @ data
      | WriteWaiting ws' rest \<Rightarrow>
          rest \<noteq> [] \<and> ring_ok ws' \<and> writer_frame ws ws' \<and>
          ring_contents ws' @ rest = ring_contents ws @ data
      | WriteFault \<Rightarrow> False)"

definition read_post :: "StreamingFile \<Rightarrow> nat \<Rightarrow> byte list \<Rightarrow> read_outcome \<Rightarrow> bool" where
  "read_post ws bcount got out \<longleftrightarrow>
     (case out of
        ReadReturned res ws' \<Rightarrow>
          (\<exists>new. res = got @ new \<and> new @ stream_view ws' = stream_view ws \<and>
                 length new \<le> bcount \<and>
                 (length new < bcount \<longrightarrow> done_flag ws \<noteq> 0 \<and> stream_view ws' = [])) \<and>
          ring_ok ws' \<and> reader_frame ws ws'
      | ReadWaiting ws' rest got' \<Rightarrow>
          (\<exists>new. got' = got @ new \<and> new @ stream_view ws' = stream_view ws \<and>
                 length new + rest = bcount) \<and>
          0 < rest \<and> stream_view ws' = [] \<and> done_flag ws = 0 \<and>
          ring_ok ws' \<and> reader_frame ws ws'
      | ReadFault \<Rightarrow> False)"

section \<open>A producer and a consumer on one channel\<close>

text \<open>
  One test case has one thread that writes and one that reads. Each is either outside a
  call or waiting inside one: the writer on \<open>cond_read\<close> with the bytes it still has to copy,
  the reader on \<open>cond_write\<close> with the count it still wants and the bytes it has got. The
  mutex makes every run of a loop between two waits one step, and \<open>push_back_byte\<close>, which
  takes no mutex, touches only the slot that the reader alone uses. A waiting thread goes
  on when it is woken, by a signal or spuriously: the steps \<open>WakeProducer\<close> and \<open>WakeConsumer\<close>
  may come at any time, so every schedule of the two threads is a list of events.

  Three history fields record what the specification talks about: \<open>written\<close>, the bytes
  passed to \<open>write_block\<close> so far; \<open>returned\<close>, the bytes that calls of \<open>read_bytes\<close> have
  returned; \<open>accepted\<close>, the stream offered to the reader, which is \<open>written\<close> with each byte
  that \<open>push_back_byte\<close> took inserted where the reader stood.
\<close>

record channel_system =
  chan :: StreamingFile
  sys_seed :: "64 word"
  producer :: "byte list option"
  consumer :: "(nat \<times> byte list) option"
  written :: "byte list"
  accepted :: "byte list"
  returned :: "byte list"

datatype event =
    Write "byte list" nat
  | WakeProducer
  | Read nat
  | WakeConsumer
  | PushBack byte
  | Flush

definition after_write :: "channel_system \<Rightarrow> write_outcome \<Rightarrow> channel_system option" where
  "after_write s out =
     (case out of
        WriteReturned r ws \<Rightarrow> Some (s\<lparr>chan := ws, producer := None\<rparr>)
      | WriteWaiting ws rest \<Rightarrow> Some (s\<lparr>chan := ws, producer := Some rest\<rparr>)
      | WriteFault \<Rightarrow> None)"

definition after_read :: "channel_system \<Rightarrow> read_outcome \<Rightarrow> channel_system option" where
  "after_read s out =
     (case out of
        ReadReturned res ws \<Rightarrow>
          Some (s\<lparr>chan := ws, consumer := None, returned := returned s @ res\<rparr>)
      | ReadWaiting ws rest got \<Rightarrow> Some (s\<lparr>chan := ws, consumer := Some (rest, got)\<rparr>)
      | ReadFault \<Rightarrow> None)"

text \<open>
  One step. An event that its thread cannot issue (a call inside a call) and a fault
  have no successor.
\<close>

definition sys_step :: "(real \<Rightarrow> real) \<Rightarrow> channel_system \<Rightarrow> event \<Rightarrow> channel_system option" where
  "sys_step rnd s e =
     (case e of
        Write data fwrite_count \<Rightarrow>
          (case producer s of
             Some rest \<Rightarrow> None
           | None \<Rightarrow>
               (case write_block rnd fwrite_count (chan s) data (sys_seed s) of
                  None \<Rightarrow> None
                | Some (out, random_seed) \<Rightarrow>
                    after_write (s\<lparr>sys_seed := random_seed, written := written s @ data,
                                    accepted := accepted s @ data\<rparr>) out))
      | WakeProducer \<Rightarrow>
          (case producer s of
             None \<Rightarrow> None
           | Some rest \<Rightarrow> after_write s (write_loop (chan s) rest))
      | Read bcount \<Rightarrow>
          (case consumer s of
             Some waiting \<Rightarrow> None
           | None \<Rightarrow> after_read s (read_bytes (chan s) bcount))
      | WakeConsumer \<Rightarrow>
          (case consumer s of
             None \<Rightarrow> None
           | Some (bcount, got) \<Rightarrow> after_read s (read_loop (chan s) bcount got))
      | PushBack b \<Rightarrow>
          (case consumer s of
             Some waiting \<Rightarrow> None
           | None \<Rightarrow>
               (case push_back_byte (chan s) (ucast b) of
                  (r, ws) \<Rightarrow>
                    Some (s\<lparr>chan := ws,
                            accepted := (if r = EOF then accepted s
                                         else returned s @ b # drop (length (returned s)) (accepted s))\<rparr>)))
      | Flush \<Rightarrow>
          (case producer s of
             Some rest \<Rightarrow> None
           | None \<Rightarrow> Some (s\<lparr>chan := flush_stream (chan s)\<rparr>)))"

fun run :: "(real \<Rightarrow> real) \<Rightarrow> channel_system \<Rightarrow> event list \<Rightarrow> channel_system option" where
  "run rnd s [] = Some s"
| "run rnd s (e # es) = (case sys_step rnd s e of None \<Rightarrow> None | Some s' \<Rightarrow> run rnd s' es)"

definition init_system :: "nat \<Rightarrow> int \<Rightarrow> 64 word \<Rightarrow> channel_system" where
  "init_system bsize fuzz random_seed =
     \<lparr>chan = initialize_stream cleared_stream bsize fuzz, sys_seed = random_seed,
      producer = None, consumer = None, written = [], accepted = [], returned = []\<rparr>"

text \<open>
  The parts of the stream on their way: what a waiting reader has got, what a waiting
  writer still holds. The invariant of the channel: returned, in flight, viewed and unsent
  bytes, in this order, are the accepted stream.
\<close>

definition in_flight :: "channel_system \<Rightarrow> byte list" where
  "in_flight s = (case consumer s of None \<Rightarrow> [] | Some (bcount, got) \<Rightarrow> got)"

definition unsent :: "channel_system \<Rightarrow> byte list" where
  "unsent s = (case producer s of None \<Rightarrow> [] | Some rest \<Rightarrow> rest)"

definition nonzero_pushbacks :: "event list \<Rightarrow> bool" where
  "nonzero_pushbacks es \<longleftrightarrow> (\<forall>e \<in> set es. case e of PushBack b \<Rightarrow> b \<noteq> 0 | _ \<Rightarrow> True)"

definition fifo_inv :: "channel_system \<Rightarrow> bool" where
  "fifo_inv s \<longleftrightarrow>
     ring_ok (chan s) \<and> fuzz_period (chan s) = 0 \<and>
     returned s @ in_flight s @ stream_view (chan s) @ unsent s = accepted s"

text \<open>
  The events a thread can issue in a state: a call when it is outside one, a wake-up when
  it waits.
\<close>

definition enabled :: "channel_system \<Rightarrow> event \<Rightarrow> bool" where
  "enabled s e =
     (case e of
        Write data fwrite_count \<Rightarrow> producer s = None
      | WakeProducer \<Rightarrow> producer s \<noteq> None
      | Read bcount \<Rightarrow> consumer s = None
      | WakeConsumer \<Rightarrow> consumer s \<noteq> None
      | PushBack b \<Rightarrow> consumer s = None
      | Flush \<Rightarrow> producer s = None)"

definition writes_of :: "event list \<Rightarrow> byte list" where
  "writes_of es = concat (map (\<lambda>e. case e of Write data fwrite_count \<Rightarrow> data | _ \<Rightarrow> []) es)"

definition no_pushbacks :: "event list \<Rightarrow> bool" where
  "no_pushbacks es \<longleftrightarrow> (\<forall>e \<in> set es. case e of PushBack b \<Rightarrow> False | _ \<Rightarrow> True)"

text \<open>
  A channel without a ring: what \<open>initialize_stream\<close> with size 0 leaves of a cleared
  structure, whether or not a file is attached afterwards.
\<close>

definition zero_capacity :: "StreamingFile \<Rightarrow> bool" where
  "zero_capacity ws \<longleftrightarrow>
     buffer_size ws = 0 \<and> buffer_base ws = None \<and> buffer_head ws = 0 \<and> buffer_tail ws = 0 \<and>
     fuzz_period ws = 0"

section \<open>Theorems\<close>

subsection \<open>The verdict\<close>

text \<open>
  C1, as the code has it. With decoding enabled and a verification mismatch (wrong
  sample count, wrong hash in a lossless configuration, or a nonzero error count):
  without fault injection the status is nonzero, for every error count other than -1
  (so for every count that is not negative); with fault injection the status is 0,
  whatever the mismatch is.
\<close>

theorem run_test_verify_mismatch_status:
  assumes "test_flags AND TEST_FLAG_NO_DECODE = 0"
    and "verify_mismatch cfg wpconfig_flags test_flags total_samples md5_encoded wd"
    and "num_errors wd \<noteq> - 1"
  shows "(period = 0 \<longrightarrow>
           run_test_verify cfg wpconfig_flags test_flags period total_samples md5_encoded wd \<noteq> 0) \<and>
         (period \<noteq> 0 \<longrightarrow>
           run_test_verify cfg wpconfig_flags test_flags period total_samples md5_encoded wd = 0)"
proof -
  from assms(3) have "num_errors wd + 1 \<noteq> 0"
    by (simp add: eq_neg_iff_add_eq_0 [symmetric])
  with assms(1,2) show ?thesis
    by (simp add: run_test_verify_def)
qed

theorem run_test_verify_mismatch_status_witness:
  "(0::32 word) AND TEST_FLAG_NO_DECODE = 0 \<and>
   verify_mismatch \<lparr>CONFIG_HYBRID_FLAG = 8, CONFIG_CREATE_WVC = 0x80000\<rparr> 0 0 10 (replicate 16 1)
     \<lparr>md5_decoded = replicate 16 1, sample_count = 7, num_errors = 0\<rparr> \<and>
   num_errors \<lparr>md5_decoded = replicate 16 1, sample_count = 7, num_errors = 0\<rparr> \<noteq> - 1 \<and>
   run_test_verify \<lparr>CONFIG_HYBRID_FLAG = 8, CONFIG_CREATE_WVC = 0x80000\<rparr> 0 0 0 10 (replicate 16 1)
     \<lparr>md5_decoded = replicate 16 1, sample_count = 7, num_errors = 0\<rparr> \<noteq> 0 \<and>
   run_test_verify \<lparr>CONFIG_HYBRID_FLAG = 8, CONFIG_CREATE_WVC = 0x80000\<rparr> 0 0 2000 10 (replicate 16 1)
     \<lparr>md5_decoded = replicate 16 1, sample_count = 7, num_errors = 0\<rparr> = 0"
proof -
  let ?cfg = "\<lparr>CONFIG_HYBRID_FLAG = 8, CONFIG_CREATE_WVC = 0x80000\<rparr>"
  let ?wd = "\<lparr>md5_decoded = replicate 16 1, sample_count = 7, num_errors = 0 :: 32 word\<rparr>"
  have d: "(0::32 word) AND TEST_FLAG_NO_DECODE = 0"
    by (simp add: TEST_FLAG_NO_DECODE_def)
  have m: "verify_mismatch ?cfg 0 0 10 (replicate 16 1) ?wd"
    by (simp add: verify_mismatch_def)
  have e: "num_errors ?wd \<noteq> - 1" by simp
  from run_test_verify_mismatch_status [OF d m e, of 0]
  have a: "run_test_verify ?cfg 0 0 0 10 (replicate 16 1) ?wd \<noteq> 0" by simp
  from run_test_verify_mismatch_status [OF d m e, of 2000]
  have b: "run_test_verify ?cfg 0 0 2000 10 (replicate 16 1) ?wd = 0" by simp
  from d m e a b show ?thesis by blast
qed

text \<open>
  C1 as the specification words it fails: with fault injection active (period 2000), a
  lossless run whose decoder reports zero errors but delivers 7 samples instead of 10 and
  a different hash ends with status 0.
\<close>

theorem run_test_verify_fuzz_counterexample:
  "verify_mismatch \<lparr>CONFIG_HYBRID_FLAG = 8, CONFIG_CREATE_WVC = 0x80000\<rparr> 0 0 10 (replicate 16 1)
     \<lparr>md5_decoded = replicate 16 2, sample_count = 7, num_errors = 0\<rparr> \<and>
   num_errors \<lparr>md5_decoded = replicate 16 2, sample_count = 7, num_errors = 0\<rparr> = 0 \<and>
   (0::32 word) AND TEST_FLAG_NO_DECODE = 0 \<and>
   run_test_verify \<lparr>CONFIG_HYBRID_FLAG = 8, CONFIG_CREATE_WVC = 0x80000\<rparr> 0 0 2000 10 (replicate 16 1)
     \<lparr>md5_decoded = replicate 16 2, sample_count = 7, num_errors = 0\<rparr> = 0"
  by (simp add: run_test_verify_def verify_mismatch_def TEST_FLAG_NO_DECODE_def)

subsection \<open>The fault injector\<close>






lemma count_hits_loop:
  assumes cap: "int cap = c_div (L + 1) 2"
  shows "k < cap \<Longrightarrow>
     \<exists>k'. count_hits p L u (\<Sum>i<k. hit_probability p L (int i)) k = Some k' \<and>
         k \<le> k' \<and> k' \<le> cap \<and>
         (\<forall>j. k \<le> j \<and> j < k' \<longrightarrow> (\<Sum>i\<le>j. hit_probability p L (int i)) < u) \<and>
         (k' < cap \<longrightarrow> u \<le> (\<Sum>i\<le>k'. hit_probability p L (int i)))"
proof (induction "cap - k" arbitrary: k)
  case 0
  then show ?case by simp
next
  case (Suc n)
  let ?S = "\<lambda>j. \<Sum>i\<le>j. hit_probability p L (int i)"
  have acc: "(\<Sum>i<k. hit_probability p L (int i)) + hit_probability p L (int k) = ?S k"
    by (simp add: lessThan_Suc_atMost [symmetric])
  show ?case
  proof (cases "?S k < u")
    case False
    then have "count_hits p L u (\<Sum>i<k. hit_probability p L (int i)) k = Some k"
      by (subst count_hits.simps) (simp add: acc Let_def)
    with False Suc.prems show ?thesis by auto
  next
    case True
    show ?thesis
    proof (cases "Suc k = cap")
      case c: True
      then have "int (k + 1) = c_div (L + 1) 2" using cap by simp
      with True have "count_hits p L u (\<Sum>i<k. hit_probability p L (int i)) k = Some (Suc k)"
        by (subst count_hits.simps) (simp add: acc Let_def)
      moreover have "\<forall>j. k \<le> j \<and> j < Suc k \<longrightarrow> ?S j < u"
        using True by (auto simp: less_Suc_eq_le)
      ultimately show ?thesis using c by auto
    next
      case c: False
      then have ne: "int (k + 1) \<noteq> c_div (L + 1) 2" using cap by (simp flip: cap)
      have step: "count_hits p L u (\<Sum>i<k. hit_probability p L (int i)) k =
                  count_hits p L u (\<Sum>i<Suc k. hit_probability p L (int i)) (Suc k)"
        using True ne by (subst count_hits.simps) (simp add: acc Let_def lessThan_Suc_atMost)
      from c Suc.prems Suc.hyps(2) have "n = cap - Suc k" "Suc k < cap" by auto
      from Suc.hyps(1) [OF this] obtain k' where k':
        "count_hits p L u (\<Sum>i<Suc k. hit_probability p L (int i)) (Suc k) = Some k'"
        "Suc k \<le> k'" "k' \<le> cap"
        "\<forall>j. Suc k \<le> j \<and> j < k' \<longrightarrow> ?S j < u"
        "k' < cap \<longrightarrow> u \<le> ?S k'"
        by blast
      have "\<forall>j. k \<le> j \<and> j < k' \<longrightarrow> ?S j < u"
      proof (intro allI impI)
        fix j assume "k \<le> j \<and> j < k'"
        then consider "j = k" | "Suc k \<le> j \<and> j < k'" by force
        then show "?S j < u" using True k'(4) by cases auto
      qed
      with k' step show ?thesis by auto
    qed
  qed
qed


lemma toggle_bits_differs: "fst (toggle_bits d init b s) \<noteq> init"
proof (induction d init b s rule: toggle_bits.induct)
  case (1 delta_bits initial_value b random_seed)
  show ?case
  proof (cases "delta_bits > 0 \<or> b = initial_value")
    case True
    obtain r s' where fr: "frandom random_seed = (r, s')"
      by (cases "frandom random_seed")
    from 1 [OF True fr [symmetric]] True fr show ?thesis
      by (subst toggle_bits.simps) simp
  next
    case False
    then show ?thesis
      by (subst toggle_bits.simps) simp
  qed
qed

lemma fuzz_index_range:
  assumes "1 \<le> len" and "rounds_within rnd len" and "0 \<le> r" and "r < 1"
  shows "0 \<le> fuzz_index rnd r len \<and> fuzz_index rnd r len < len"
proof -
  from assms(1,3,4) have "0 \<le> r * real_of_int len" and "r * real_of_int len \<le> real_of_int len"
    by (simp_all add: mult_left_le_one_le)
  with assms(2) have "0 \<le> rnd (r * real_of_int len)" and "rnd (r * real_of_int len) \<le> real_of_int len"
    by (simp_all add: rounds_within_def)
  then have "0 \<le> \<lfloor>rnd (r * real_of_int len)\<rfloor>" and "\<lfloor>rnd (r * real_of_int len)\<rfloor> \<le> len"
    by (simp_all add: floor_le_iff le_floor_iff)
  with assms(1) show ?thesis
    by (auto simp: fuzz_index_def Let_def)
qed

lemma fuzz_hit_Inr:
  assumes "fuzz_hit rnd data len s = Inr (data', s')"
  shows "nat (fuzz_index rnd (fst (frandom s)) len) < length data \<and>
         data' ! nat (fuzz_index rnd (fst (frandom s)) len) \<noteq>
           data ! nat (fuzz_index rnd (fst (frandom s)) len) \<and>
         length data' = length data \<and>
         (\<forall>j. j \<noteq> nat (fuzz_index rnd (fst (frandom s)) len) \<longrightarrow> data' ! j = data ! j)"
proof -
  obtain r1 s1 where f1: "frandom s = (r1, s1)" by (cases "frandom s")
  obtain r2 s2 where f2: "frandom s1 = (r2, s2)" by (cases "frandom s1")
  define i where "i = fuzz_index rnd r1 len"
  obtain b s3 where tb: "toggle_bits \<lceil>r2 * 8\<rceil> (data ! nat i) (data ! nat i) s2 = (b, s3)"
    by (cases "toggle_bits \<lceil>r2 * 8\<rceil> (data ! nat i) (data ! nat i) s2")
  from assms have inb: "0 \<le> i \<and> i < int (length data)" and d': "data' = data[nat i := b]"
    by (auto simp: fuzz_hit_def f1 f2 i_def [symmetric] tb Let_def split: if_splits)
  have "b \<noteq> data ! nat i"
    using toggle_bits_differs [of "\<lceil>r2 * 8\<rceil>" "data ! nat i" "data ! nat i" s2] tb by simp
  with inb d' show ?thesis
    by (auto simp: f1 i_def [symmetric])
qed

lemma fuzz_hit_total:
  assumes "1 \<le> len" and "rounds_within rnd len" and "len \<le> int (length data)"
  shows "\<exists>data' s'. fuzz_hit rnd data len s = Inr (data', s') \<and> length data' = length data"
proof -
  obtain r1 s1 where f1: "frandom s = (r1, s1)" by (cases "frandom s")
  obtain r2 s2 where f2: "frandom s1 = (r2, s2)" by (cases "frandom s1")
  from frandom_range [of s] f1 have "0 \<le> r1" "r1 < 1" by simp_all
  from fuzz_index_range [OF assms(1,2) this] assms(3)
  have "0 \<le> fuzz_index rnd r1 len \<and> fuzz_index rnd r1 len < int (length data)" by simp
  then show ?thesis
    by (simp add: fuzz_hit_def f1 f2 Let_def split: prod.splits)
qed

lemma fuzz_hits_total:
  assumes "1 \<le> len" and "rounds_within rnd len"
  shows "len \<le> int (length data) \<Longrightarrow>
         \<exists>data' s'. fuzz_hits rnd n data len s = Inr (data', s') \<and> length data' = length data"
proof (induction n arbitrary: data s)
  case 0
  then show ?case by simp
next
  case (Suc n)
  from fuzz_hit_total [OF assms Suc.prems, of s] obtain d1 s1 where
    h: "fuzz_hit rnd data len s = Inr (d1, s1)" and l: "length d1 = length data" by blast
  from Suc.prems l have "len \<le> int (length d1)" by simp
  from Suc.IH [OF this, of s1] h l show ?case by auto
qed

lemma count_hits_total:
  assumes "1 \<le> L"
  shows "\<exists>k. count_hits p L u 0 0 = Some k"
proof -
  from assms have "c_div (L + 1) 2 = (L + 1) div 2"
    by (simp add: c_div_def)
  with assms have "int (nat (c_div (L + 1) 2)) = c_div (L + 1) 2" and "0 < nat (c_div (L + 1) 2)"
    by auto
  from count_hits_loop [OF this, of p u] show ?thesis by auto
qed



lemma fuzz_buffer_seed:
  assumes "fuzz_buffer rnd data len p seed = Some (Inr (data', seed'))"
  shows "seed' = seed"
  using assms
  by (auto simp: fuzz_buffer_def frandom_get_seed_def frandom_set_seed_def Let_def
           split: prod.splits option.splits sum.splits)

lemma fuzz_buffer_total:
  assumes "1 \<le> len" and "len \<le> int (length data)" and "rounds_within rnd len"
  shows "\<exists>data'. fuzz_buffer rnd data len p seed = Some (Inr (data', seed)) \<and>
                length data' = length data"
proof -
  obtain u s1 where f: "frandom seed = (u, s1)" by (cases "frandom seed")
  from count_hits_total [OF assms(1), of p u] obtain k where
    k: "count_hits p len u 0 0 = Some k" by blast
  from fuzz_hits_total [OF assms(1,3,2), of k s1] obtain d s2 where
    h: "fuzz_hits rnd k data len s1 = Inr (d, s2)" and l: "length d = length data" by blast
  from f k h l show ?thesis
    by (simp add: fuzz_buffer_def frandom_get_seed_def frandom_set_seed_def Let_def)
qed





text \<open>
  C7. Wherever a hit lands (a buffer of at least \<open>len\<close> bytes, \<open>len\<close> at least 1), the
  bit-toggle loop ends, the chosen byte differs afterwards from its value before the hit,
  and no other byte of the buffer changes.
\<close>

theorem fuzz_hit_changes_byte:
  assumes "1 \<le> len" and "rounds_within rnd len" and "len \<le> int (length data)"
  shows "\<exists>data' seed'. fuzz_hit rnd data len seed = Inr (data', seed') \<and>
           data' ! nat (fuzz_index rnd (fst (frandom seed)) len) \<noteq>
             data ! nat (fuzz_index rnd (fst (frandom seed)) len) \<and>
           length data' = length data \<and>
           (\<forall>j. j \<noteq> nat (fuzz_index rnd (fst (frandom seed)) len) \<longrightarrow> data' ! j = data ! j)"
proof -
  from fuzz_hit_total [OF assms, of seed] obtain data' seed' where
    "fuzz_hit rnd data len seed = Inr (data', seed')" by blast
  with fuzz_hit_Inr [OF this] show ?thesis by blast
qed

theorem fuzz_hit_changes_byte_witness:
  "(1::int) \<le> 4 \<and> rounds_within (\<lambda>x. x) 4 \<and> (4::int) \<le> int (length [1, 2, 3, 4 :: byte]) \<and>
   fuzz_index (\<lambda>x. x) (fst (frandom 0x3141592653589793)) 4 = 1 \<and>
   (\<exists>data' seed'. fuzz_hit (\<lambda>x. x) [1, 2, 3, 4] 4 0x3141592653589793 = Inr (data', seed') \<and>
      data' ! 1 \<noteq> [1, 2, 3, 4] ! 1)"
proof -
  have o: "(1::int) \<le> 4" by simp
  have r: "rounds_within (\<lambda>x. x) 4" by (simp add: rounds_within_def)
  have l: "(4::int) \<le> int (length [1, 2, 3, 4 :: byte])" by simp
  have i: "fuzz_index (\<lambda>x. x) (fst (frandom 0x3141592653589793)) 4 = 1"
    by (simp add: frandom_def frandom_mix_def Let_def fuzz_index_def)
  from fuzz_hit_changes_byte [OF o r l, of "0x3141592653589793"]
  have "\<exists>data' seed'. fuzz_hit (\<lambda>x. x) [1, 2, 3, 4] 4 0x3141592653589793 = Inr (data', seed') \<and>
      data' ! 1 \<noteq> [1, 2, 3, 4] ! 1"
    unfolding i by auto
  with o r l i show ?thesis by blast
qed

text \<open>
  C8. Whenever \<open>fuzz_buffer\<close> returns, the seed is the one it was called with, so the
  draws that follow are the same with and without the call; and on a buffer of at least
  \<open>len\<close> bytes, \<open>len\<close> at least 1, it does return, for every period.
\<close>

theorem fuzz_buffer_restores_seed:
  "(fuzz_buffer rnd data len period seed = Some (Inr (data', seed')) \<longrightarrow>
      seed' = seed \<and> frandom_draws n seed' = frandom_draws n seed) \<and>
   (1 \<le> len \<and> len \<le> int (length data) \<and> rounds_within rnd len \<longrightarrow>
      (\<exists>d. fuzz_buffer rnd data len period seed = Some (Inr (d, seed))))"
  using fuzz_buffer_seed [of rnd data len period seed data' seed']
    fuzz_buffer_total [of len data rnd period seed]
  by auto

theorem fuzz_buffer_restores_seed_witness:
  "(1::int) \<le> 4 \<and> (4::int) \<le> int (length [1, 2, 3, 4 :: byte]) \<and> rounds_within (\<lambda>x. x) 4 \<and>
   (\<exists>d. fuzz_buffer (\<lambda>x. x) [1, 2, 3, 4] 4 2 0x3141592653589793 =
          Some (Inr (d, 0x3141592653589793)))"
proof -
  have h: "(1::int) \<le> 4 \<and> (4::int) \<le> int (length [1, 2, 3, 4 :: byte]) \<and> rounds_within (\<lambda>x. x) 4"
    by (simp add: rounds_within_def)
  with fuzz_buffer_restores_seed [of "\<lambda>x. x" "[1, 2, 3, 4]" 4 2 "0x3141592653589793"]
  show ?thesis by blast
qed

text \<open>
  C10. For a length of at least 1, the index chosen for a hit lies in \<open>[0, len - 1]\<close>:
  where the floor of the product equals \<open>len\<close> the index is \<open>len - 1\<close>, and on a buffer of at
  least \<open>len\<close> bytes no access of the hit falls outside it.
\<close>

theorem fuzz_index_in_bounds:
  assumes "1 \<le> len" and "rounds_within rnd len" and "len \<le> int (length data)"
  shows "0 \<le> fuzz_index rnd (fst (frandom seed)) len \<and>
         fuzz_index rnd (fst (frandom seed)) len \<le> len - 1 \<and>
         (\<lfloor>rnd (fst (frandom seed) * real_of_int len)\<rfloor> = len \<longrightarrow>
            fuzz_index rnd (fst (frandom seed)) len = len - 1) \<and>
         fuzz_hit rnd data len seed \<noteq> Inl OutOfBounds"
proof -
  from frandom_range [of seed] have "0 \<le> fst (frandom seed)" "fst (frandom seed) < 1" by simp_all
  from fuzz_index_range [OF assms(1,2) this]
  have "0 \<le> fuzz_index rnd (fst (frandom seed)) len \<and>
        fuzz_index rnd (fst (frandom seed)) len \<le> len - 1" by simp
  moreover have "\<lfloor>rnd (fst (frandom seed) * real_of_int len)\<rfloor> = len \<longrightarrow>
            fuzz_index rnd (fst (frandom seed)) len = len - 1"
    by (simp add: fuzz_index_def Let_def)
  moreover from fuzz_hit_total [OF assms, of seed]
  have "fuzz_hit rnd data len seed \<noteq> Inl OutOfBounds" by auto
  ultimately show ?thesis by blast
qed

theorem fuzz_index_in_bounds_witness:
  "(1::int) \<le> 4 \<and> rounds_within (\<lambda>x. 4) 4 \<and> (4::int) \<le> int (length [1, 2, 3, 4 :: byte]) \<and>
   \<lfloor>(\<lambda>x. 4 :: real) (fst (frandom 0x3141592653589793) * real_of_int 4)\<rfloor> = (4::int) \<and>
   fuzz_index (\<lambda>x. 4) (fst (frandom 0x3141592653589793)) 4 = 3 \<and>
   fuzz_hit (\<lambda>x. 4) [1, 2, 3, 4] 4 0x3141592653589793 \<noteq> Inl OutOfBounds"
proof -
  have o: "(1::int) \<le> 4" by simp
  have r: "rounds_within (\<lambda>x. 4) 4" by (simp add: rounds_within_def)
  have l: "(4::int) \<le> int (length [1, 2, 3, 4 :: byte])" by simp
  have f: "\<lfloor>(\<lambda>x. 4 :: real) (fst (frandom 0x3141592653589793) * real_of_int 4)\<rfloor> = (4::int)"
    by simp
  from fuzz_index_in_bounds [OF o r l, of "0x3141592653589793"] f
  have "fuzz_index (\<lambda>x. 4) (fst (frandom 0x3141592653589793)) 4 = 3 \<and>
        fuzz_hit (\<lambda>x. 4) [1, 2, 3, 4] 4 0x3141592653589793 \<noteq> Inl OutOfBounds"
    by simp
  with o r l f show ?thesis by blast
qed

subsection \<open>Storing samples\<close>

lemma ucast_signed_drop_bit:
  "k \<le> 24 \<Longrightarrow> (ucast (signed_drop_bit k (w :: 32 word)) :: 8 word) = ucast (drop_bit k w)"
  by (rule bit_word_eqI) (auto simp: bit_unsigned_iff bit_signed_drop_bit_iff bit_drop_bit_eq)

lemma upt4: "[0..<4] = [0, 1, 2, 3]" "[0..<3] = [0, 1, 2]" "[0..<2] = [0, 1]" "[0..<1] = [0]"
  by (simp_all add: upt_rec)

lemma or_eq_0: "(a :: 32 word) AND (b OR c) = 0 \<longleftrightarrow> a AND b = 0 \<and> a AND c = 0"
  by (simp add: bit.conj_disj_distrib or_eq_0_iff)

lemma half_range_values:
  "half_range 1 = 0x80 \<and> half_range 2 = 0x8000 \<and> half_range 3 = 0x800000 \<and>
   half_range 4 = 0x80000000"
  by (simp add: half_range_def)

text \<open>
  C9, as the code has it. For 1 to 4 bytes per sample \<open>store_samples\<close> writes, for each of the
  first \<open>count\<close> samples, the low \<open>bps\<close> bytes of the sample in the selected byte order, after
  adding the bias \<open>0x80\<close>, \<open>0x8000\<close>, \<open>0x800000\<close> or \<open>0x80000000\<close> when the unsigned encoding is
  selected: by \<open>QMODE_UNSIGNED_WORDS\<close>, or for one byte per sample when \<open>QMODE_SIGNED_BYTES\<close> is
  clear and, in little-endian order, \<open>QMODE_DSD_AUDIO\<close> is clear as well.
\<close>

theorem store_samples_bytes:
  assumes "bps \<in> {1, 2, 3, 4}"
  shows "store_samples q src qmode bps count =
           concat (map (encode_sample q qmode bps) (take count src)) \<and>
         half_range 1 = 0x80 \<and> half_range 2 = 0x8000 \<and> half_range 3 = 0x800000 \<and>
         half_range 4 = 0x80000000"
proof -
  have "store_samples q src qmode bps count =
           concat (map (encode_sample q qmode bps) (take count src))"
  proof -
  consider "bps = 1" | "bps = 2" | "bps = 3" | "bps = 4" using assms by auto
  then show ?thesis
  proof cases
    case 1
    then show ?thesis
      by (auto simp: store_samples_def encode_sample_def [abs_def] unsigned_selected_def low_bytes_def
            half_range_def store_little_endian_unsigned_samples_def
            store_little_endian_signed_samples_def store_big_endian_unsigned_samples_def
            store_big_endian_signed_samples_def upt4 or_eq_0)
  next
    case 2
    then show ?thesis
      by (auto simp: store_samples_def encode_sample_def [abs_def] unsigned_selected_def low_bytes_def
            half_range_def store_little_endian_unsigned_samples_def
            store_little_endian_signed_samples_def store_big_endian_unsigned_samples_def
            store_big_endian_signed_samples_def upt4 ucast_signed_drop_bit Let_def)
  next
    case 3
    then show ?thesis
      by (auto simp: store_samples_def encode_sample_def [abs_def] unsigned_selected_def low_bytes_def
            half_range_def store_little_endian_unsigned_samples_def
            store_little_endian_signed_samples_def store_big_endian_unsigned_samples_def
            store_big_endian_signed_samples_def upt4 ucast_signed_drop_bit Let_def)
  next
    case 4
    then show ?thesis
      by (auto simp: store_samples_def encode_sample_def [abs_def] unsigned_selected_def low_bytes_def
            half_range_def store_little_endian_unsigned_samples_def
            store_little_endian_signed_samples_def store_big_endian_unsigned_samples_def
            store_big_endian_signed_samples_def upt4 ucast_signed_drop_bit Let_def)
  qed
  qed
  with half_range_values show ?thesis by simp
qed


theorem store_samples_bytes_witness:
  "(2::int) \<in> {1, 2, 3, 4} \<and>
   store_samples wavpack_qmode [0x12345678, 0xFFFFFFFF] 0 2 2 = [0x78, 0x56, 0xFF, 0xFF] \<and>
   store_samples wavpack_qmode [0x12345678, 0xFFFFFFFF] 0 2 2 =
     concat (map (encode_sample wavpack_qmode 0 2) (take 2 [0x12345678, 0xFFFFFFFF]))"
proof -
  have m: "(2::int) \<in> {1, 2, 3, 4}" by simp
  have e: "concat (map (encode_sample wavpack_qmode 0 2) (take 2 [0x12345678, 0xFFFFFFFF])) =
           [0x78, 0x56, 0xFF, 0xFF]"
    by (simp add: encode_sample_def unsigned_selected_def wavpack_qmode_def low_bytes_def upt4
          drop_bit_eq_div)
  from store_samples_bytes [OF m, of wavpack_qmode "[0x12345678, 0xFFFFFFFF]" 0 2] e m
  show ?thesis by (simp only: simp_thms)
qed

text \<open>
  C9 as the specification words it fails: with the DSD-audio flag set, one byte per
  sample, little-endian and \<open>QMODE_SIGNED_BYTES\<close> clear, the specification selects the
  unsigned encoding (the sample 0 as \<open>0x80\<close>), and \<open>store_samples\<close> writes the signed byte 0.
\<close>

theorem store_samples_dsd_counterexample:
  "unsigned_selected_spec wavpack_qmode 0x30 1 \<and>
   0x30 AND QMODE_BIG_ENDIAN wavpack_qmode = 0 \<and>
   low_bytes 1 (0 + half_range 1) = [0x80] \<and>
   store_samples wavpack_qmode [0] 0x30 1 1 = [0]"
  by (simp add: unsigned_selected_spec_def wavpack_qmode_def low_bytes_def half_range_def upt4
        store_samples_def store_little_endian_signed_samples_def)


subsection \<open>Quantizing floats to 32-bit integers\<close>

lemma tz27: "trailing_zeros 0x8000000 (Suc 0) = Some (1, 27)"
  by (simp add: trailing_zeros.simps)

lemma refill_zeros_bounds:
  "(unat x + 1) * 2 ^ n \<le> 2 ^ 32 \<Longrightarrow>
   unat x * 2 ^ n \<le> unat (fst (refill_zeros n x s)) \<and>
   unat (fst (refill_zeros n x s)) < (unat x + 1) * 2 ^ n"
proof (induction n arbitrary: x s)
  case 0
  then show ?case by simp
next
  case (Suc n)
  obtain r s' where f: "frandom s = (r, s')" by (cases "frandom s")
  define b :: nat where "b = (if r > 0.5 then 1 else 0)"
  define x' :: "32 word" where "x' = push_bit 1 x + (if r > 0.5 then 1 else 0)"
  from Suc.prems have small: "2 * unat x + 2 \<le> 2 ^ 32"
  proof -
    have "(unat x + 1) * 2 ^ Suc n = (2 * unat x + 2) * 2 ^ n" by simp
    moreover have "(2 * unat x + 2) * 1 \<le> (2 * unat x + 2) * 2 ^ n"
      by (rule mult_le_mono2) simp
    ultimately show ?thesis using Suc.prems by simp
  qed
  have ux': "unat x' = 2 * unat x + b"
  proof -
    have "x' = 2 * x + of_nat b"
      by (simp add: x'_def b_def push_bit_eq_mult)
    then have "unat x' = (2 * unat x + b) mod 2 ^ 32"
      by (simp add: unat_word_ariths unat_of_nat mod_simps)
    moreover have "2 * unat x + b < 2 ^ 32" using small by (simp add: b_def)
    ultimately show ?thesis by simp
  qed
  have b: "b \<le> 1" by (simp add: b_def)
  have pre: "(unat x' + 1) * 2 ^ n \<le> 2 ^ 32"
  proof -
    have "(unat x' + 1) * 2 ^ n \<le> (2 * unat x + 2) * 2 ^ n"
      using b by (intro mult_le_mono1) (simp add: ux')
    also have "\<dots> = (unat x + 1) * 2 ^ Suc n" by simp
    finally show ?thesis using Suc.prems by simp
  qed
  from Suc.IH [OF pre, of s'] have
    lo: "unat x' * 2 ^ n \<le> unat (fst (refill_zeros n x' s'))" and
    hi: "unat (fst (refill_zeros n x' s')) < (unat x' + 1) * 2 ^ n" by simp_all
  have step: "refill_zeros (Suc n) x s = refill_zeros n x' s'"
    by (simp add: f x'_def)
  have "unat x * 2 ^ Suc n \<le> unat x' * 2 ^ n"
    by (simp add: ux')
  moreover have "(unat x' + 1) * 2 ^ n \<le> (unat x + 1) * 2 ^ Suc n"
  proof -
    have "(unat x' + 1) * 2 ^ n \<le> (2 * unat x + 2) * 2 ^ n"
      using b by (intro mult_le_mono1) (simp add: ux')
    then show ?thesis by simp
  qed
  ultimately show ?case
    unfolding step using lo hi by linarith
qed

lemma float_to_32bit_integer_sample_max:
  "1 \<le> sample \<Longrightarrow>
   float_to_32bit_integer_sample sample random_seed = Some (0x7fffffff, random_seed)"
  by (simp add: float_to_32bit_integer_sample_def)

text \<open>
  C3 at the sample \<open>-1.0\<close>: \<open>imin\<close> is \<open>0x8000000\<close>, that is \<open>2^27\<close>, not \<open>-2^31\<close>. It is even, so its 27
  trailing zeros are filled with random bits: for every seed the sample quantizes to a
  positive value from \<open>2^27\<close> to \<open>2^28 - 1\<close>, never to the minimum 32-bit integer.
\<close>

theorem float_to_32bit_integer_sample_minus_one:
  "\<exists>v random_seed'. float_to_32bit_integer_sample (- 1) random_seed = Some (v, random_seed') \<and>
       2 ^ 27 \<le> unat v \<and> unat v < 2 ^ 28 \<and> v \<noteq> 0x80000000"
proof -
  have ev: "float_to_32bit_integer_sample (- 1) random_seed =
            Some (refill_zeros 27 1 random_seed)"
    by (simp add: float_to_32bit_integer_sample_def tz27)
  obtain v s' where r: "refill_zeros 27 1 random_seed = (v, s')"
    by (cases "refill_zeros 27 1 random_seed")
  from refill_zeros_bounds [of 1 27 random_seed] r
  have "2 ^ 27 \<le> unat v \<and> unat v < 2 ^ 28" by simp
  moreover from this have "v \<noteq> 0x80000000" by auto
  ultimately show ?thesis using ev r by simp
qed

subsection \<open>The streaming channel\<close>

lemma write_chunk_cases:
  assumes "ring_ok ws"
  shows "0 \<le> write_chunk ws len \<and> write_chunk ws len \<le> int len \<and>
         int (buffer_head ws) + write_chunk ws len \<le> int (buffer_size ws) \<and>
         (buffer_tail ws \<le> buffer_head ws \<longrightarrow>
            write_chunk ws len \<le> int (buffer_size ws) - 1 - (int (buffer_head ws) - int (buffer_tail ws))) \<and>
         (buffer_head ws < buffer_tail ws \<longrightarrow>
            int (buffer_head ws) + write_chunk ws len < int (buffer_tail ws))"
  using assms
  by (auto simp: ring_ok_def write_chunk_def Let_def split: option.splits)

lemma write_step:
  assumes ok: "ring_ok ws" and buf: "buffer_base ws = Some buf"
    and n: "int n = write_chunk ws (length data)" and pos: "0 < n"
  shows "ring_ok (ws\<lparr>buffer_base := Some (memcpy_in buf (buffer_head ws) (take n data)),
                    buffer_head := (if buffer_head ws + n = buffer_size ws then 0
                                    else buffer_head ws + n)\<rparr>) \<and>
         ring_contents (ws\<lparr>buffer_base := Some (memcpy_in buf (buffer_head ws) (take n data)),
                    buffer_head := (if buffer_head ws + n = buffer_size ws then 0
                                    else buffer_head ws + n)\<rparr>) =
         ring_contents ws @ take n data"
proof -
  from write_chunk_cases [OF ok, of "length data"] n have
    b1: "n \<le> length data" and b2: "buffer_head ws + n \<le> buffer_size ws" and
    b3: "buffer_tail ws \<le> buffer_head ws \<Longrightarrow> n + (buffer_head ws - buffer_tail ws) + 1 \<le> buffer_size ws" and
    b4: "buffer_head ws < buffer_tail ws \<Longrightarrow> buffer_head ws + n < buffer_tail ws"
    by auto
  from ok buf have len: "length buf = buffer_size ws" and h: "buffer_head ws < buffer_size ws"
    and t: "buffer_tail ws < buffer_size ws"
    by (auto simp: ring_ok_def)
  have lm: "length (memcpy_in buf (buffer_head ws) (take n data)) = buffer_size ws"
    using b1 b2 len by (simp add: memcpy_in_def)
  show ?thesis
  proof (cases "buffer_tail ws \<le> buffer_head ws")
    case True
    note b3 = b3 [OF True]
    show ?thesis
    proof (cases "buffer_head ws + n = buffer_size ws")
      case e: True
      with b3 True have "0 < buffer_tail ws" by simp
      with e True b1 b2 len h t pos lm show ?thesis
        by (simp add: ring_ok_def ring_contents_def buf memcpy_in_def drop_take)
    next
      case e: False
      with True b1 b2 len h t pos lm show ?thesis
        by (simp add: ring_ok_def ring_contents_def buf memcpy_in_def drop_take)
    qed
  next
    case False
    then have lt: "buffer_head ws < buffer_tail ws" by simp
    note b4 = b4 [OF lt]
    with lt b1 b2 len h t pos lm show ?thesis
      by (simp add: ring_ok_def ring_contents_def buf memcpy_in_def drop_take)
  qed
qed

lemma read_chunk_cases:
  assumes "ring_ok ws" and "buffer_head ws \<noteq> buffer_tail ws" and "0 < bcount"
  shows "0 < read_chunk ws bcount \<and> read_chunk ws bcount \<le> int bcount \<and>
         int (buffer_tail ws) + read_chunk ws bcount \<le> int (buffer_size ws) \<and>
         (buffer_tail ws < buffer_head ws \<longrightarrow>
            int (buffer_tail ws) + read_chunk ws bcount \<le> int (buffer_head ws))"
  using assms
  by (auto simp: ring_ok_def read_chunk_def Let_def split: option.splits)

lemma read_step:
  assumes ok: "ring_ok ws" and buf: "buffer_base ws = Some buf"
    and ne: "buffer_head ws \<noteq> buffer_tail ws" and bpos: "0 < bcount"
    and n: "int n = read_chunk ws bcount"
  shows "0 < n \<and> n \<le> bcount \<and> buffer_tail ws + n \<le> length buf \<and>
         ring_ok (ws\<lparr>buffer_tail := (if buffer_tail ws + n = buffer_size ws then 0
                                       else buffer_tail ws + n),
                       bytes_read := br\<rparr>) \<and>
         take n (drop (buffer_tail ws) buf) @
           ring_contents (ws\<lparr>buffer_tail := (if buffer_tail ws + n = buffer_size ws then 0
                                       else buffer_tail ws + n),
                       bytes_read := br\<rparr>) =
         ring_contents ws"
proof -
  from read_chunk_cases [OF ok ne bpos] n have
    b0: "0 < n" and b1: "n \<le> bcount" and b2: "buffer_tail ws + n \<le> buffer_size ws" and
    b3: "buffer_tail ws < buffer_head ws \<Longrightarrow> buffer_tail ws + n \<le> buffer_head ws"
    by auto
  from ok buf have len: "length buf = buffer_size ws" and h: "buffer_head ws < buffer_size ws"
    and t: "buffer_tail ws < buffer_size ws"
    by (auto simp: ring_ok_def)
  show ?thesis
  proof (cases "buffer_tail ws < buffer_head ws")
    case True
    note b3 = b3 [OF True]
    have "take n (drop (buffer_tail ws) buf) @
          take (buffer_head ws - (buffer_tail ws + n)) (drop (buffer_tail ws + n) buf) =
          take (buffer_head ws - buffer_tail ws) (drop (buffer_tail ws) buf)"
      using b3 take_add [of n "buffer_head ws - (buffer_tail ws + n)" "drop (buffer_tail ws) buf"]
      by (simp add: add.commute)
    with True b0 b1 b2 b3 len h t show ?thesis
      by (simp add: ring_ok_def ring_contents_def buf)
  next
    case False
    with ne have gt: "buffer_head ws < buffer_tail ws" by simp
    show ?thesis
    proof (cases "buffer_tail ws + n = buffer_size ws")
      case e: True
      with gt b0 b1 b2 len h t show ?thesis
        by (simp add: ring_ok_def ring_contents_def buf)
    next
      case e: False
      have "take n (drop (buffer_tail ws) buf) @ drop (buffer_tail ws + n) buf =
            drop (buffer_tail ws) buf"
        using append_take_drop_id [of n "drop (buffer_tail ws) buf"] by (simp add: add.commute)
      with e gt b0 b1 b2 len h t show ?thesis
        by (simp add: ring_ok_def ring_contents_def buf)
    qed
  qed
qed

lemma write_loop_ring: "ring_ok ws \<Longrightarrow> write_post ws data (write_loop ws data)"
proof (induction ws data rule: write_loop.induct)
  case (1 ws data)
  show ?case
  proof (cases "data = []")
    case True
    with 1(2) show ?thesis
      by (subst write_loop.simps) (simp add: write_post_def writer_frame_def)
  next
    case ne: False
    define x where "x = write_chunk ws (length data)"
    from write_chunk_cases [OF 1(2), of "length data"] have
      x0: "0 \<le> x" and x1: "x \<le> int (length data)" and
      x2: "int (buffer_head ws) + x \<le> int (buffer_size ws)"
      by (simp_all add: x_def)
    from 1(2) obtain buf where buf: "buffer_base ws = Some buf" and len: "length buf = buffer_size ws"
      by (auto simp: ring_ok_def split: option.splits)
    show ?thesis
    proof (cases "x = 0")
      case True
      have "ring_contents (ws\<lparr>full_waits := full_waits ws + 1\<rparr>) = ring_contents ws"
        by (simp add: ring_contents_def split: option.splits)
      moreover have "ring_ok (ws\<lparr>full_waits := full_waits ws + 1\<rparr>)"
        using 1(2) by (simp add: ring_ok_def split: option.splits)
      ultimately show ?thesis using ne True
        by (subst write_loop.simps)
           (simp add: x_def [symmetric] write_post_def writer_frame_def)
    next
      case False
      with x0 have pos: "0 < nat x" and nx: "int (nat x) = write_chunk ws (length data)"
        by (simp_all add: x_def)
      define ws1 where "ws1 = ws\<lparr>buffer_base := Some (memcpy_in buf (buffer_head ws) (take (nat x) data)),
                    buffer_head := (if buffer_head ws + nat x = buffer_size ws then 0
                                    else buffer_head ws + nat x)\<rparr>"
      from write_step [OF 1(2) buf nx pos] have
        ok1: "ring_ok ws1" and c1: "ring_contents ws1 = ring_contents ws @ take (nat x) data"
        by (simp_all add: ws1_def)
      have nofault: "\<not> (x < 0 \<or> buffer_head ws + nat x > length buf)"
        using x0 x2 len by simp
      have IH: "write_post ws1 (drop (nat x) data) (write_loop ws1 (drop (nat x) data))"
        using 1(1) [OF ne x_def False buf nofault] ok1 by (simp add: ws1_def)
      have unfold: "write_loop ws data = write_loop ws1 (drop (nat x) data)"
        using ne False nofault
        by (subst write_loop.simps) (simp add: x_def [symmetric] buf ws1_def Let_def)
      have fr: "writer_frame ws ws1"
        by (simp add: writer_frame_def ws1_def)
      from IH c1 fr show ?thesis
        unfolding unfold
        by (auto simp: write_post_def writer_frame_def split: write_outcome.splits)
    qed
  qed
qed

lemma stream_view_empty:
  "ring_ok ws \<Longrightarrow> push_back ws = 0 \<Longrightarrow> buffer_head ws = buffer_tail ws \<Longrightarrow> stream_view ws = []"
  by (simp add: stream_view_def ring_contents_def split: option.splits)

lemma read_loop_view: "ring_ok ws \<Longrightarrow> read_post ws bcount got (read_loop ws bcount got)"
proof (induction ws bcount got rule: read_loop.induct)
  case (1 ws bcount got)
  note ok = 1(3)
  show ?case
  proof (cases "bcount = 0")
    case True
    with ok show ?thesis
      by (subst read_loop.simps) (simp add: read_post_def reader_frame_def)
  next
    case b: False
    show ?thesis
    proof (cases "push_back ws \<noteq> 0")
      case pb: True
      define ws1 where "ws1 = ws\<lparr>push_back := 0\<rparr>"
      have ok1: "ring_ok ws1" using ok by (simp add: ws1_def ring_ok_def split: option.splits)
      have v: "stream_view ws = [ucast (push_back ws)] @ stream_view ws1"
        using pb by (simp add: stream_view_def ws1_def ring_contents_def split: option.splits)
      have fr: "reader_frame ws ws1" "done_flag ws1 = done_flag ws"
        by (simp_all add: reader_frame_def ws1_def)
      have IH: "read_post ws1 (bcount - 1) (got @ [ucast (push_back ws)])
                  (read_loop ws1 (bcount - 1) (got @ [ucast (push_back ws)]))"
        using 1(1) [OF b pb] ok1 by (simp add: ws1_def)
      have unfold: "read_loop ws bcount got =
                    read_loop ws1 (bcount - 1) (got @ [ucast (push_back ws)])"
        using b pb by (subst read_loop.simps) (simp add: ws1_def)
      from IH v fr b show ?thesis
        unfolding unfold
        by (auto simp: read_post_def reader_frame_def split: read_outcome.splits)
    next
      case pb: False
      show ?thesis
      proof (cases "buffer_head ws \<noteq> buffer_tail ws")
        case ne: True
        define x where "x = read_chunk ws bcount"
        from ok obtain buf where buf: "buffer_base ws = Some buf"
          by (auto simp: ring_ok_def split: option.splits)
        from b have bpos: "0 < bcount" by simp
        from read_chunk_cases [OF ok ne bpos] have x0: "0 < x" by (simp add: x_def)
        then have nx: "int (nat x) = read_chunk ws bcount" by (simp add: x_def)
        define br where "br = bytes_read ws + of_nat (nat x)"
        define ws1 where "ws1 = ws\<lparr>buffer_tail := (if buffer_tail ws + nat x = buffer_size ws then 0
                                       else buffer_tail ws + nat x),
                       bytes_read := br\<rparr>"
        define chunk where "chunk = take (nat x) (drop (buffer_tail ws) buf)"
        have "0 < nat x \<and> nat x \<le> bcount \<and> buffer_tail ws + nat x \<le> length buf \<and>
              ring_ok ws1 \<and> chunk @ ring_contents ws1 = ring_contents ws"
          using read_step [OF ok buf ne bpos nx, of br] unfolding ws1_def chunk_def .
        then have n1: "nat x \<le> bcount" and n2: "buffer_tail ws + nat x \<le> length buf" and
          ok1: "ring_ok ws1" and c1: "chunk @ ring_contents ws1 = ring_contents ws"
          by blast+
        have lc: "length chunk = nat x" using n2 by (simp add: chunk_def)
        have nofault: "\<not> (x \<le> 0 \<or> buffer_tail ws + nat x > length buf)"
          using x0 n2 by simp
        have v: "stream_view ws = chunk @ stream_view ws1"
          using pb c1 by (simp add: stream_view_def ws1_def)
        have fr: "reader_frame ws ws1" "done_flag ws1 = done_flag ws"
          by (simp_all add: reader_frame_def ws1_def)
        have IH: "read_post ws1 (bcount - nat x) (got @ chunk)
                    (read_loop ws1 (bcount - nat x) (got @ chunk))"
          using 1(2) [OF b pb ne x_def buf nofault] ok1
          unfolding ws1_def chunk_def br_def by blast
        have unfold: "read_loop ws bcount got = read_loop ws1 (bcount - nat x) (got @ chunk)"
          using b pb ne nofault
          by (subst read_loop.simps)
             (simp add: x_def [symmetric] buf ws1_def chunk_def br_def Let_def)
        from IH v fr n1 lc show ?thesis
          unfolding unfold
          by (auto simp: read_post_def reader_frame_def split: read_outcome.splits)
      next
        case e: False
        with pb ok have empty: "stream_view ws = []"
          by (simp add: stream_view_empty)
        show ?thesis
        proof (cases "done_flag ws \<noteq> 0")
          case True
          with b pb e ok empty show ?thesis
            by (subst read_loop.simps) (simp add: read_post_def reader_frame_def)
        next
          case False
          have ok': "ring_ok (ws\<lparr>empty_waits := empty_waits ws + 1\<rparr>)"
            using ok by (simp add: ring_ok_def split: option.splits)
          have "stream_view (ws\<lparr>empty_waits := empty_waits ws + 1\<rparr>) = []"
            using pb e by (intro stream_view_empty [OF ok']) simp_all
          with ok' show ?thesis using b pb e False empty
            by (subst read_loop.simps) (simp add: read_post_def reader_frame_def)
        qed
      qed
    qed
  qed
qed

lemma write_block_account_frame:
  "buffer_base (write_block_account n ws data) = buffer_base ws \<and>
   buffer_size (write_block_account n ws data) = buffer_size ws \<and>
   buffer_head (write_block_account n ws data) = buffer_head ws \<and>
   buffer_tail (write_block_account n ws data) = buffer_tail ws \<and>
   push_back (write_block_account n ws data) = push_back ws \<and>
   done_flag (write_block_account n ws data) = done_flag ws \<and>
   fuzz_period (write_block_account n ws data) = fuzz_period ws"
  by (simp add: write_block_account_def Let_def split: option.splits)

lemma write_block_nofuzz:
  assumes ok: "ring_ok ws" and nf: "fuzz_period ws = 0"
  shows "\<exists>out. write_block rnd n ws data random_seed = Some (out, random_seed) \<and>
           (case out of
              WriteReturned r ws' \<Rightarrow>
                ring_ok ws' \<and> fuzz_period ws' = 0 \<and> stream_view ws' = stream_view ws @ data
            | WriteWaiting ws' rest \<Rightarrow>
                ring_ok ws' \<and> fuzz_period ws' = 0 \<and>
                stream_view ws' @ rest = stream_view ws @ data
            | WriteFault \<Rightarrow> False)"
proof (cases "data = []")
  case True
  with ok nf show ?thesis by (simp add: write_block_def)
next
  case False
  define ws3 where "ws3 = write_block_account n ws data"
  have same: "buffer_base ws3 = buffer_base ws" "buffer_size ws3 = buffer_size ws"
    "buffer_head ws3 = buffer_head ws" "buffer_tail ws3 = buffer_tail ws"
    "push_back ws3 = push_back ws" "fuzz_period ws3 = fuzz_period ws"
    using write_block_account_frame [of n ws data] by (simp_all add: ws3_def)
  from same ok have ok3: "ring_ok ws3" by (simp add: ring_ok_def split: option.splits)
  from same have rc3: "ring_contents ws3 = ring_contents ws"
    by (simp add: ring_contents_def split: option.splits)
  from ok have "buffer_size ws \<noteq> 0" by (auto simp: ring_ok_def split: option.splits)
  with same have nz: "buffer_size ws3 \<noteq> 0" by simp
  have wb: "write_block rnd n ws data random_seed = Some (write_loop ws3 data, random_seed)"
    using False nf nz by (simp add: write_block_def Let_def ws3_def [symmetric])
  from write_loop_ring [OF ok3, of data] rc3 same nf show ?thesis
    unfolding wb
    by (auto simp: write_post_def writer_frame_def stream_view_def split: write_outcome.splits)
qed

lemma write_loop_view:
  assumes ok: "ring_ok ws"
  shows "case write_loop ws data of
           WriteReturned r ws' \<Rightarrow>
             ring_ok ws' \<and> fuzz_period ws' = fuzz_period ws \<and> stream_view ws' = stream_view ws @ data
         | WriteWaiting ws' rest \<Rightarrow>
             ring_ok ws' \<and> fuzz_period ws' = fuzz_period ws \<and>
             stream_view ws' @ rest = stream_view ws @ data
         | WriteFault \<Rightarrow> False"
  using write_loop_ring [OF ok, of data]
  by (auto simp: write_post_def writer_frame_def stream_view_def split: write_outcome.splits)

lemma ucast_byte_int: "(ucast (ucast (b :: 8 word) :: 32 word) :: 8 word) = b"
  by (rule bit_word_eqI) (simp add: bit_ucast_iff)

lemma read_loop_fifo:
  assumes ok: "ring_ok ws"
  shows "case read_loop ws bcount got of
           ReadReturned res ws' \<Rightarrow>
             ring_ok ws' \<and> fuzz_period ws' = fuzz_period ws \<and>
             res @ stream_view ws' @ rest' = got @ stream_view ws @ rest'
         | ReadWaiting ws' rest got' \<Rightarrow>
             ring_ok ws' \<and> fuzz_period ws' = fuzz_period ws \<and>
             got' @ stream_view ws' @ rest' = got @ stream_view ws @ rest'
         | ReadFault \<Rightarrow> False"
proof (cases "read_loop ws bcount got")
  case (ReadReturned res ws')
  with read_loop_view [OF ok, of bcount got] obtain new where
    "res = got @ new" "new @ stream_view ws' = stream_view ws" "ring_ok ws'" "reader_frame ws ws'"
    by (auto simp: read_post_def)
  moreover from this have "res @ stream_view ws' @ rest' = got @ stream_view ws @ rest'"
    by (metis append.assoc)
  ultimately show ?thesis using ReadReturned by (simp add: reader_frame_def)
next
  case (ReadWaiting ws' rest got')
  with read_loop_view [OF ok, of bcount got] obtain new where
    "got' = got @ new" "new @ stream_view ws' = stream_view ws" "ring_ok ws'" "reader_frame ws ws'"
    by (auto simp: read_post_def)
  moreover from this have "got' @ stream_view ws' @ rest' = got @ stream_view ws @ rest'"
    by (metis append.assoc)
  ultimately show ?thesis using ReadWaiting by (simp add: reader_frame_def)
next
  case ReadFault
  with read_loop_view [OF ok, of bcount got] show ?thesis by (simp add: read_post_def)
qed

lemma ucast_byte_nonzero: "b \<noteq> 0 \<Longrightarrow> (ucast (b :: 8 word) :: 32 word) \<noteq> 0"
  by (metis ucast_byte_int ucast_0)

lemma ucast_byte_not_EOF: "(ucast (b :: 8 word) :: 32 word) \<noteq> EOF"
proof
  assume "(ucast b :: 32 word) = EOF"
  then have "bit (ucast b :: 32 word) 31 = bit (- 1 :: 32 word) 31"
    by (simp add: EOF_def)
  then have "bit b 31" by (simp add: bit_ucast_iff)
  then have "31 < LENGTH(8)" by (rule bit_imp_le_length)
  then show False by simp
qed

lemma after_read_inv:
  assumes ok: "ring_ok (chan s)" and nf: "fuzz_period (chan s) = 0"
    and acc: "returned s @ got @ stream_view (chan s) @ unsent s = accepted s"
    and ar: "after_read s (read_loop (chan s) bcount got) = Some s'"
  shows "fifo_inv s'"
proof (cases "read_loop (chan s) bcount got")
  case (ReadReturned res ws')
  from read_loop_fifo [OF ok, where bcount = bcount and got = got and rest' = "unsent s"]
  have p: "ring_ok ws' \<and> fuzz_period ws' = fuzz_period (chan s) \<and>
           res @ stream_view ws' @ unsent s = got @ stream_view (chan s) @ unsent s"
    unfolding ReadReturned by (simp only: read_outcome.case)
  from ar have s': "s' = s\<lparr>chan := ws', consumer := None, returned := returned s @ res\<rparr>"
    by (simp add: after_read_def ReadReturned)
  have "returned s' @ in_flight s' @ stream_view (chan s') @ unsent s' =
        returned s @ (res @ stream_view ws' @ unsent s)"
    by (simp add: s' in_flight_def unsent_def)
  also have "\<dots> = accepted s'" using p acc by (simp only: s') simp
  finally show ?thesis using p nf by (simp add: fifo_inv_def s')
next
  case (ReadWaiting ws' rest got')
  from read_loop_fifo [OF ok, where bcount = bcount and got = got and rest' = "unsent s"]
  have p: "ring_ok ws' \<and> fuzz_period ws' = fuzz_period (chan s) \<and>
           got' @ stream_view ws' @ unsent s = got @ stream_view (chan s) @ unsent s"
    unfolding ReadWaiting by (simp only: read_outcome.case)
  from ar have s': "s' = s\<lparr>chan := ws', consumer := Some (rest, got')\<rparr>"
    by (simp add: after_read_def ReadWaiting)
  have "returned s' @ in_flight s' @ stream_view (chan s') @ unsent s' =
        returned s @ (got' @ stream_view ws' @ unsent s)"
    by (simp add: s' in_flight_def unsent_def)
  also have "\<dots> = accepted s'" using p acc by (simp only: s') simp
  finally show ?thesis using p nf by (simp add: fifo_inv_def s')
next
  case ReadFault
  with ar show ?thesis by (simp add: after_read_def)
qed

lemma sys_step_inv:
  assumes inv: "fifo_inv s" and step: "sys_step rnd s e = Some s'"
    and nz: "case e of PushBack b \<Rightarrow> b \<noteq> 0 | _ \<Rightarrow> True"
  shows "fifo_inv s'"
proof (cases e)
  case (Write data n)
  from inv have ok: "ring_ok (chan s)" and nf: "fuzz_period (chan s) = 0" by (simp_all add: fifo_inv_def)
  from write_block_nofuzz [OF ok nf, of rnd n data "sys_seed s"] obtain out where
    wb: "write_block rnd n (chan s) data (sys_seed s) = Some (out, sys_seed s)" and
    post: "case out of
              WriteReturned r ws' \<Rightarrow>
                ring_ok ws' \<and> fuzz_period ws' = 0 \<and> stream_view ws' = stream_view (chan s) @ data
            | WriteWaiting ws' rest \<Rightarrow>
                ring_ok ws' \<and> fuzz_period ws' = 0 \<and>
                stream_view ws' @ rest = stream_view (chan s) @ data
            | WriteFault \<Rightarrow> False"
    by blast
  from step Write have idle: "producer s = None"
    by (auto simp: sys_step_def split: option.splits)
  with inv have acc: "returned s @ in_flight s @ stream_view (chan s) = accepted s"
    by (simp add: fifo_inv_def unsent_def)
  from step Write idle wb post acc show ?thesis
    by (auto simp: sys_step_def after_write_def fifo_inv_def unsent_def in_flight_def
             split: write_outcome.splits)
next
  case WakeProducer
  from inv have ok: "ring_ok (chan s)" and nf: "fuzz_period (chan s) = 0" by (simp_all add: fifo_inv_def)
  from step WakeProducer obtain rest where rest: "producer s = Some rest"
    by (auto simp: sys_step_def split: option.splits)
  with inv have acc: "returned s @ in_flight s @ stream_view (chan s) @ rest = accepted s"
    by (simp add: fifo_inv_def unsent_def)
  from step WakeProducer rest write_loop_view [OF ok, of rest] nf acc show ?thesis
    by (auto simp: sys_step_def after_write_def fifo_inv_def unsent_def in_flight_def
             split: write_outcome.splits)
next
  case (Read bcount)
  from inv have ok: "ring_ok (chan s)" and nf: "fuzz_period (chan s) = 0" by (simp_all add: fifo_inv_def)
  from step Read have idle: "consumer s = None"
    by (auto simp: sys_step_def split: option.splits)
  with inv have acc: "returned s @ [] @ stream_view (chan s) @ unsent s = accepted s"
    by (simp add: fifo_inv_def in_flight_def)
  from step Read idle have ar: "after_read s (read_loop (chan s) bcount []) = Some s'"
    by (simp add: sys_step_def read_bytes_def)
  from after_read_inv [OF ok nf acc ar] show ?thesis .
next
  case WakeConsumer
  from inv have ok: "ring_ok (chan s)" and nf: "fuzz_period (chan s) = 0" by (simp_all add: fifo_inv_def)
  from step WakeConsumer obtain bcount got where w: "consumer s = Some (bcount, got)"
    by (auto simp: sys_step_def split: option.splits)
  with inv have acc: "returned s @ got @ stream_view (chan s) @ unsent s = accepted s"
    by (simp add: fifo_inv_def in_flight_def)
  from step WakeConsumer w have ar: "after_read s (read_loop (chan s) bcount got) = Some s'"
    by (simp add: sys_step_def)
  from after_read_inv [OF ok nf acc ar] show ?thesis .
next
  case (PushBack b)
  with nz have b: "b \<noteq> 0" by simp
  from inv have ok: "ring_ok (chan s)" and nf: "fuzz_period (chan s) = 0" by (simp_all add: fifo_inv_def)
  from step PushBack have idle: "consumer s = None"
    by (auto simp: sys_step_def split: option.splits)
  with inv have acc: "returned s @ stream_view (chan s) @ unsent s = accepted s"
    by (simp add: fifo_inv_def in_flight_def)
  then have dr: "drop (length (returned s)) (accepted s) = stream_view (chan s) @ unsent s"
    by (metis append_eq_conv_conj)
  show ?thesis
  proof (cases "push_back (chan s) = 0")
    case True
    then have v: "stream_view (chan s\<lparr>push_back := ucast b\<rparr>) = b # stream_view (chan s)"
      using ucast_byte_nonzero [OF b]
      by (simp add: stream_view_def ring_contents_def ucast_byte_int split: option.splits)
    have ok': "ring_ok (chan s\<lparr>push_back := ucast b\<rparr>)"
      using ok by (simp add: ring_ok_def split: option.splits)
    from step PushBack idle True ucast_byte_not_EOF [of b]
    have s': "s' = s\<lparr>chan := (chan s)\<lparr>push_back := ucast b\<rparr>,
                     accepted := returned s @ b # drop (length (returned s)) (accepted s)\<rparr>"
      by (auto simp: sys_step_def push_back_byte_def)
    show ?thesis
      by (simp add: fifo_inv_def s' v ok' nf dr unsent_def in_flight_def idle)
  next
    case False
    with step PushBack idle inv show ?thesis
      by (auto simp: sys_step_def push_back_byte_def fifo_inv_def unsent_def in_flight_def)
  qed
next
  case Flush
  from inv have ok: "ring_ok (chan s)" by (simp add: fifo_inv_def)
  have v: "stream_view (flush_stream (chan s)) = stream_view (chan s)"
    by (simp add: flush_stream_def stream_view_def ring_contents_def split: option.splits)
  have ok': "ring_ok (flush_stream (chan s))"
    using ok by (simp add: flush_stream_def ring_ok_def split: option.splits)
  have nf: "fuzz_period (flush_stream (chan s)) = fuzz_period (chan s)"
    by (simp add: flush_stream_def)
  from step Flush inv v ok' nf show ?thesis
    by (auto simp: sys_step_def fifo_inv_def unsent_def in_flight_def split: option.splits)
qed

lemma run_inv:
  "fifo_inv s \<Longrightarrow> nonzero_pushbacks es \<Longrightarrow> run rnd s es = Some s' \<Longrightarrow> fifo_inv s'"
proof (induction es arbitrary: s)
  case Nil
  then show ?case by simp
next
  case (Cons e es)
  from Cons.prems(3) obtain s1 where
    st: "sys_step rnd s e = Some s1" and rest: "run rnd s1 es = Some s'"
    by (auto split: option.splits)
  from Cons.prems(2) have nz: "case e of PushBack b \<Rightarrow> b \<noteq> 0 | _ \<Rightarrow> True"
    and nzs: "nonzero_pushbacks es"
    by (simp_all add: nonzero_pushbacks_def)
  from sys_step_inv [OF Cons.prems(1) st nz] have "fifo_inv s1" .
  from Cons.IH [OF this nzs rest] show ?case .
qed

lemma sys_step_written:
  assumes "sys_step rnd s e = Some s'"
  shows "written s' = written s @ writes_of [e] \<and>
         (no_pushbacks [e] \<and> accepted s = written s \<longrightarrow> accepted s' = written s')"
  using assms
  by (cases e)
     (auto simp: sys_step_def after_write_def after_read_def writes_of_def no_pushbacks_def
           split: option.splits write_outcome.splits read_outcome.splits prod.splits)

lemma run_written:
  "run rnd s es = Some s' \<Longrightarrow>
   written s' = written s @ writes_of es \<and>
   (no_pushbacks es \<and> accepted s = written s \<longrightarrow> accepted s' = written s')"
proof (induction es arbitrary: s)
  case Nil
  then show ?case by (simp add: writes_of_def)
next
  case (Cons e es)
  from Cons.prems obtain s1 where
    st: "sys_step rnd s e = Some s1" and rest: "run rnd s1 es = Some s'"
    by (auto split: option.splits)
  have w: "writes_of (e # es) = writes_of [e] @ writes_of es"
    by (simp add: writes_of_def)
  have np: "no_pushbacks (e # es) \<longleftrightarrow> no_pushbacks [e] \<and> no_pushbacks es"
    by (simp add: no_pushbacks_def)
  from sys_step_written [OF st] Cons.IH [OF rest] show ?case
    unfolding w np by auto
qed

lemma init_system_inv: "1 \<le> bsize \<Longrightarrow> fifo_inv (init_system bsize 0 random_seed)"
  by (simp add: fifo_inv_def init_system_def initialize_stream_def cleared_stream_def ring_ok_def
        in_flight_def unsent_def stream_view_def ring_contents_def)

lemma capacity_one_never_accepts:
  assumes "ring_ok ws" and "buffer_size ws = 1" and "data \<noteq> []"
  shows "write_loop ws data = WriteWaiting (ws\<lparr>full_waits := full_waits ws + 1\<rparr>) data"
proof -
  from assms(1,2) have "buffer_head ws = 0" "buffer_tail ws = 0"
    by (auto simp: ring_ok_def split: option.splits)
  with assms(2) have "write_chunk ws (length data) = 0"
    by (simp add: write_chunk_def Let_def)
  with assms(3) show ?thesis
    by (subst write_loop.simps) simp
qed

lemma push_back_byte_nonzero:
  assumes "ring_ok ws" and "push_back ws = 0" and "b \<noteq> 0"
  shows "push_back_byte ws (ucast b) = (ucast b, ws\<lparr>push_back := ucast b\<rparr>) \<and>
         (ucast b :: 32 word) \<noteq> EOF \<and>
         read_bytes (ws\<lparr>push_back := ucast b\<rparr>) 1 = ReadReturned [b] ws"
proof -
  have "ws\<lparr>push_back := 0\<rparr> = ws" using assms(2) by simp
  then have "read_bytes (ws\<lparr>push_back := ucast b\<rparr>) 1 = ReadReturned [b] ws"
    using ucast_byte_nonzero [OF assms(3)]
    by (simp add: read_bytes_def read_loop.simps [of _ "Suc 0"] read_loop.simps [of _ 0]
          ucast_byte_int)
  with assms(2) ucast_byte_not_EOF [of b] show ?thesis
    by (simp add: push_back_byte_def)
qed

lemma push_back_byte_pending:
  "push_back ws \<noteq> 0 \<Longrightarrow> push_back_byte ws c = (EOF, ws)"
  by (simp add: push_back_byte_def)

lemma zero_capacity_init: "zero_capacity (initialize_stream cleared_stream 0 fuzz)"
  by (simp add: zero_capacity_def initialize_stream_def cleared_stream_def)


lemma sys_step_no_fault:
  assumes inv: "fifo_inv s" and en: "enabled s e"
  shows "sys_step rnd s e \<noteq> None"
proof -
  from inv have ok: "ring_ok (chan s)" and nf: "fuzz_period (chan s) = 0"
    by (simp_all add: fifo_inv_def)
  show ?thesis
  proof (cases e)
    case (Write data n)
    from write_block_nofuzz [OF ok nf, of rnd n data "sys_seed s"] obtain out where
      wb: "write_block rnd n (chan s) data (sys_seed s) = Some (out, sys_seed s)"
      and post: "case out of
              WriteReturned r ws' \<Rightarrow>
                ring_ok ws' \<and> fuzz_period ws' = 0 \<and> stream_view ws' = stream_view (chan s) @ data
            | WriteWaiting ws' rest \<Rightarrow>
                ring_ok ws' \<and> fuzz_period ws' = 0 \<and>
                stream_view ws' @ rest = stream_view (chan s) @ data
            | WriteFault \<Rightarrow> False"
      by blast
    from post have nofault: "out \<noteq> WriteFault" by (cases out) simp_all
    from en Write have "producer s = None" by (simp add: enabled_def)
    with wb nofault Write show ?thesis
      by (cases out) (simp_all add: sys_step_def after_write_def)
  next
    case WakeProducer
    with en obtain rest where r: "producer s = Some rest" by (auto simp: enabled_def)
    from write_loop_view [OF ok, of rest] WakeProducer r show ?thesis
      by (auto simp: sys_step_def after_write_def split: write_outcome.splits)
  next
    case (Read bcount)
    from read_loop_view [OF ok, of bcount "[]"] en Read show ?thesis
      by (auto simp: sys_step_def enabled_def after_read_def read_bytes_def read_post_def
               split: read_outcome.splits)
  next
    case WakeConsumer
    with en obtain bcount got where r: "consumer s = Some (bcount, got)"
      by (auto simp: enabled_def)
    from read_loop_view [OF ok, of bcount got] WakeConsumer r show ?thesis
      by (auto simp: sys_step_def after_read_def read_post_def split: read_outcome.splits)
  next
    case (PushBack b)
    with en show ?thesis
      by (auto simp: sys_step_def enabled_def split: prod.splits)
  next
    case Flush
    with en show ?thesis
      by (auto simp: sys_step_def enabled_def)
  qed
qed

lemmas sys_eval = init_system_def sys_step_def after_write_def after_read_def write_block_def
  write_block_account_def initialize_stream_def cleared_stream_def write_loop.simps
  read_loop.simps read_bytes_def write_chunk_def read_chunk_def memcpy_in_def push_back_byte_def
  flush_stream_def EOF_def Let_def

text \<open>
  C2, as the code has it. On a channel of capacity at least 1 without fuzzing, for every
  schedule of \<open>write_block\<close> calls, \<open>read_bytes\<close> calls, wake-ups, \<open>flush_stream\<close> and
  \<open>push_back_byte\<close> calls with nonzero bytes, whatever the chunk sizes: the bytes returned by
  the reads, then the bytes a waiting reader already holds, the pushed-back byte if one is
  pending, the contents of the ring and the bytes a waiting writer still holds are, in this
  order, the accepted stream, which is the written bytes with every accepted pushed-back
  byte inserted where the reader stood. Without push-backs the accepted stream is the
  concatenation of the written blocks. No event that a thread can issue next leaves the
  ring.
\<close>

theorem channel_fifo:
  assumes "1 \<le> bsize" and "nonzero_pushbacks es"
    and "run rnd (init_system bsize 0 random_seed) es = Some s"
  shows "returned s @ in_flight s @ stream_view (chan s) @ unsent s = accepted s \<and>
         written s = writes_of es \<and>
         (no_pushbacks es \<longrightarrow> accepted s = writes_of es) \<and>
         (\<forall>e. enabled s e \<longrightarrow> sys_step rnd s e \<noteq> None)"
proof -
  from run_inv [OF init_system_inv [OF assms(1)] assms(2,3)] have inv: "fifo_inv s" .
  then have "returned s @ in_flight s @ stream_view (chan s) @ unsent s = accepted s"
    by (simp add: fifo_inv_def)
  moreover from run_written [OF assms(3)]
  have "written s = writes_of es" and "no_pushbacks es \<longrightarrow> accepted s = writes_of es"
    by (simp_all add: init_system_def)
  moreover from inv have "\<forall>e. enabled s e \<longrightarrow> sys_step rnd s e \<noteq> None"
    by (simp add: sys_step_no_fault)
  ultimately show ?thesis by blast
qed


theorem channel_fifo_witness:
  "(1::nat) \<le> 3 \<and>
   nonzero_pushbacks [Write [1, 2, 3] 0, Read 2, WakeProducer, PushBack 9, Read 2] \<and>
   map_option returned
     (run (\<lambda>x. x) (init_system 3 0 0) [Write [1, 2, 3] 0, Read 2, WakeProducer, PushBack 9, Read 2]) =
     Some [1, 2, 9, 3] \<and>
   map_option (\<lambda>s. returned s @ in_flight s @ stream_view (chan s) @ unsent s = accepted s)
     (run (\<lambda>x. x) (init_system 3 0 0) [Write [1, 2, 3] 0, Read 2, WakeProducer, PushBack 9, Read 2]) =
     Some True \<and>
   no_pushbacks [Write [1, 2, 3] 0, Read 2, WakeProducer, Read 1] \<and>
   map_option returned
     (run (\<lambda>x. x) (init_system 3 0 0) [Write [1, 2, 3] 0, Read 2, WakeProducer, Read 1]) =
     Some [1, 2, 3] \<and>
   map_option accepted
     (run (\<lambda>x. x) (init_system 3 0 0) [Write [1, 2, 3] 0, Read 2, WakeProducer, Read 1]) =
     Some (writes_of [Write [1, 2, 3] 0, Read 2, WakeProducer, Read 1])"
proof -
  let ?es = "[Write [1, 2, 3] 0, Read 2, WakeProducer, PushBack 9, Read 2]"
  let ?fs = "[Write [1, 2, 3] 0, Read 2, WakeProducer, Read 1]"
  have one: "(1::nat) \<le> 3" by simp
  have nz: "nonzero_pushbacks ?es" and nz': "nonzero_pushbacks ?fs" and np: "no_pushbacks ?fs"
    by (simp_all add: nonzero_pushbacks_def no_pushbacks_def)
  have ev: "map_option returned (run (\<lambda>x. x) (init_system 3 0 0) ?es) = Some [1, 2, 9, 3]"
    by (simp add: sys_eval)
  then obtain s where s: "run (\<lambda>x. x) (init_system 3 0 0) ?es = Some s"
    by auto
  from channel_fifo [OF one nz s]
  have a: "returned s @ in_flight s @ stream_view (chan s) @ unsent s = accepted s" by simp
  have ev': "map_option returned (run (\<lambda>x. x) (init_system 3 0 0) ?fs) = Some [1, 2, 3]"
    by (simp add: sys_eval)
  then obtain t where t: "run (\<lambda>x. x) (init_system 3 0 0) ?fs = Some t"
    by auto
  from channel_fifo [OF one nz' t] np have b: "accepted t = writes_of ?fs" by simp
  have c1: "map_option (\<lambda>s. returned s @ in_flight s @ stream_view (chan s) @ unsent s = accepted s)
     (run (\<lambda>x. x) (init_system 3 0 0) ?es) = Some True"
    using a by (simp only: s option.map) simp
  have c2: "map_option accepted (run (\<lambda>x. x) (init_system 3 0 0) ?fs) = Some (writes_of ?fs)"
    using b by (simp only: t option.map)
  from one nz np ev ev' c1 c2 show ?thesis by blast
qed

text \<open>
  C2 as the specification words it fails: after writing 7, 5, a read of one byte, pushing
  the 7 back and a read of two bytes, the reads have returned 7, 7, 5, which is not the
  concatenation 7, 5 of the bytes written.
\<close>

theorem channel_pushback_counterexample:
  "map_option returned
     (run (\<lambda>x. x) (init_system 4 0 0) [Write [7, 5] 0, Read 1, PushBack 7, Read 2]) =
     Some [7, 7, 5] \<and>
   map_option written
     (run (\<lambda>x. x) (init_system 4 0 0) [Write [7, 5] 0, Read 1, PushBack 7, Read 2]) =
     Some [7, 5]"
  by (simp add: sys_eval)

text \<open>
  C4, as the code has it. On a channel without a ring every \<open>write_block\<close> of a nonempty block
  returns 1 at once; only the bookkeeping changes (\<open>bytes_written\<close> grows by the length)
  and the channel stays without a ring. \<open>flush_stream\<close> leaves such a channel as it is: the
  end-of-input flag is not set. A \<open>read_bytes\<close> of zero bytes returns at once with nothing; a
  \<open>read_bytes\<close> of one or more bytes, with nothing pushed back, waits on \<open>cond_write\<close>, also
  after \<open>flush_stream\<close>.
\<close>

theorem zero_capacity_channel:
  assumes "zero_capacity ws" and "data \<noteq> []"
  shows "write_block rnd n ws data random_seed =
           Some (WriteReturned 1 (write_block_account n ws data), random_seed) \<and>
         zero_capacity (write_block_account n ws data) \<and>
         bytes_written (write_block_account n ws data) = bytes_written ws + of_nat (length data) \<and>
         flush_stream ws = ws \<and>
         read_bytes (flush_stream ws) 0 = ReadReturned [] ws \<and>
         (0 < bcount \<and> push_back ws = 0 \<and> done_flag ws = 0 \<longrightarrow>
            read_bytes (flush_stream ws) bcount =
              ReadWaiting (ws\<lparr>empty_waits := empty_waits ws + 1\<rparr>) bcount [])"
proof -
  from assms(1) have z: "buffer_size ws = 0" "buffer_base ws = None" "buffer_head ws = 0"
    "buffer_tail ws = 0" "fuzz_period ws = 0"
    by (simp_all add: zero_capacity_def)
  have fr: "zero_capacity (write_block_account n ws data)"
    using write_block_account_frame [of n ws data] z by (simp add: zero_capacity_def)
  then have "buffer_size (write_block_account n ws data) = 0" by (simp add: zero_capacity_def)
  with assms(2) z have w: "write_block rnd n ws data random_seed =
           Some (WriteReturned 1 (write_block_account n ws data), random_seed)"
    by (simp add: write_block_def Let_def)
  have bw: "bytes_written (write_block_account n ws data) = bytes_written ws + of_nat (length data)"
    by (simp add: write_block_account_def Let_def split: option.splits)
  have fl: "flush_stream ws = ws" using z by (simp add: flush_stream_def)
  have r0: "read_bytes ws 0 = ReadReturned [] ws"
    by (simp add: read_bytes_def read_loop.simps)
  have r1: "0 < bcount \<and> push_back ws = 0 \<and> done_flag ws = 0 \<longrightarrow>
            read_bytes ws bcount = ReadWaiting (ws\<lparr>empty_waits := empty_waits ws + 1\<rparr>) bcount []"
    using z by (simp add: read_bytes_def read_loop.simps)
  from w fr bw fl r0 r1 show ?thesis by simp
qed

theorem zero_capacity_channel_witness:
  "zero_capacity (initialize_stream cleared_stream 0 2000) \<and> [1, 2, 3 :: byte] \<noteq> [] \<and>
   write_block (\<lambda>x. x) 0 (initialize_stream cleared_stream 0 2000) [1, 2, 3] 0 =
     Some (WriteReturned 1
             (write_block_account 0 (initialize_stream cleared_stream 0 2000) [1, 2, 3]), 0) \<and>
   bytes_written (write_block_account 0 (initialize_stream cleared_stream 0 2000) [1, 2, 3]) = 3 \<and>
   (0::nat) < 1 \<and> push_back (initialize_stream cleared_stream 0 2000) = 0 \<and>
   done_flag (initialize_stream cleared_stream 0 2000) = 0 \<and>
   read_bytes (flush_stream (initialize_stream cleared_stream 0 2000)) 1 =
     ReadWaiting (initialize_stream cleared_stream 0 2000
                    \<lparr>empty_waits := empty_waits (initialize_stream cleared_stream 0 2000) + 1\<rparr>) 1 []"
proof -
  let ?ws = "initialize_stream cleared_stream 0 2000"
  have z: "zero_capacity ?ws" by (rule zero_capacity_init)
  have d: "[1, 2, 3 :: byte] \<noteq> []" by simp
  have p: "(0::nat) < 1 \<and> push_back ?ws = 0 \<and> done_flag ?ws = 0"
    by (simp add: initialize_stream_def cleared_stream_def)
  have b: "bytes_written ?ws = 0" by (simp add: initialize_stream_def cleared_stream_def)
  from zero_capacity_channel [OF z d, of "\<lambda>x. x" 0 0 1] p
  have w: "write_block (\<lambda>x. x) 0 ?ws [1, 2, 3] 0 =
             Some (WriteReturned 1 (write_block_account 0 ?ws [1, 2, 3]), 0)"
    and c: "bytes_written (write_block_account 0 ?ws [1, 2, 3]) =
              bytes_written ?ws + of_nat (length [1, 2, 3 :: byte])"
    and r: "read_bytes (flush_stream ?ws) 1 =
              ReadWaiting (?ws\<lparr>empty_waits := empty_waits ?ws + 1\<rparr>) 1 []"
    by blast+
  from c b have c': "bytes_written (write_block_account 0 ?ws [1, 2, 3]) = 3" by simp
  from z d w c' p r show ?thesis by blast
qed

text \<open>
  C4 as the specification words it fails: on a zero-capacity channel \<open>flush_stream\<close> does
  not set the end-of-input flag, and a following \<open>read_bytes\<close> of one byte does not return
  zero bytes: it waits.
\<close>

theorem zero_capacity_read_counterexample:
  "flush_stream (initialize_stream cleared_stream 0 0) = cleared_stream \<and>
   done_flag (flush_stream (initialize_stream cleared_stream 0 0)) = 0 \<and>
   read_bytes (flush_stream (initialize_stream cleared_stream 0 0)) 1 =
     ReadWaiting (cleared_stream\<lparr>empty_waits := 1\<rparr>) 1 []"
  by (simp add: flush_stream_def initialize_stream_def cleared_stream_def read_bytes_def
        read_loop.simps)

text \<open>
  C5 at the byte 0. On a channel whose ring holds the byte 5 and whose slot is empty,
  \<open>push_back_byte\<close> of 0 returns 0, which is not \<open>EOF\<close>, and leaves the channel as it was: the
  byte is not stored. The read of one byte that follows returns the 5 of the ring.
\<close>

theorem push_back_byte_zero_lost:
  "map_option (\<lambda>s. (written s, push_back (chan s), stream_view (chan s)))
     (run (\<lambda>x. x) (init_system 4 0 0) [Write [5] 0]) = Some ([5], 0, [5]) \<and>
   map_option (\<lambda>s. push_back_byte (chan s) 0 = (0, chan s))
     (run (\<lambda>x. x) (init_system 4 0 0) [Write [5] 0]) = Some True \<and>
   (0 :: 32 word) \<noteq> EOF \<and>
   map_option returned
     (run (\<lambda>x. x) (init_system 4 0 0) [Write [5] 0, PushBack 0, Read 1]) = Some [5]"
  by (simp add: sys_eval stream_view_def ring_contents_def)

end
